theory Spec2Isabelle
  imports Main "HOL-Library.Sublist"
begin

section \<open>The platform's URL class\<close>

text \<open>
  \<^verbatim>\<open>crawler.js\<close> reads two properties of \<^verbatim>\<open>new URL(url)\<close>: \<^verbatim>\<open>origin\<close> and
  \<^verbatim>\<open>pathname\<close>.  The constructor throws a \<^verbatim>\<open>TypeError\<close> on a string that is not an
  absolute URL; every caller catches it.  The class belongs to the platform, not to the
  repository.  \<open>parseURL\<close> below follows the URL standard's basic parser on a fragment
  of its input language and says so when the input leaves the fragment: its answer is
  \<open>Failure\<close> where the standard returns failure (the constructor throws), \<open>Success\<close>
  with the two properties, or \<open>Unmodelled\<close>.  On an unmodelled input the constructor
  is a parameter of the model (\<open>unmodelledURL\<close> below), about which nothing is assumed.
  An input is unmodelled when

  \<^item> the part before the first \<^verbatim>\<open>?\<close> or \<^verbatim>\<open>#\<close> has a character that is not printable
    ASCII or that the path state would percent-encode (a control, a space, one of
    \<^verbatim>\<open>" < > ^ ` { }\<close>, a character above 126): no white space is stripped and nothing is
    percent-encoded inside the fragment; query and fragment may hold anything, the two
    properties do not depend on them;
  \<^item> the scheme is \<^verbatim>\<open>file\<close> or \<^verbatim>\<open>blob\<close>;
  \<^item> the host begins with \<^verbatim>\<open>[\<close> (an IPv6 literal), or is the host of an \<^verbatim>\<open>http\<close>,
    \<^verbatim>\<open>https\<close>, \<^verbatim>\<open>ws\<close>, \<^verbatim>\<open>wss\<close> or \<^verbatim>\<open>ftp\<close> URL and has a percent sign, a punycode label,
    or ends in a number without being an IPv4 address in dotted-decimal form.

  Strings are lists of 8-bit characters.  Character codes and the numbers of the
  program (ports, status codes, milliseconds, pixel sizes) are integers.
\<close>

datatype 'a Parse =
  Failure
| Unmodelled
| Success 'a

record URL =
  origin :: string
  pathname :: string

definition isAlpha :: "char \<Rightarrow> bool" where
  "isAlpha c = (let n = (of_char c :: int) in (65 \<le> n \<and> n \<le> 90) \<or> (97 \<le> n \<and> n \<le> 122))"

definition isDigit :: "char \<Rightarrow> bool" where
  "isDigit c = (let n = (of_char c :: int) in 48 \<le> n \<and> n \<le> 57)"

definition isHexDigit :: "char \<Rightarrow> bool" where
  "isHexDigit c = (let n = (of_char c :: int) in
     (48 \<le> n \<and> n \<le> 57) \<or> (65 \<le> n \<and> n \<le> 70) \<or> (97 \<le> n \<and> n \<le> 102))"

definition toLower :: "char \<Rightarrow> char" where
  "toLower c = (let n = (of_char c :: int) in if 65 \<le> n \<and> n \<le> 90 then char_of (n + 32) else c)"

definition toUpper :: "char \<Rightarrow> char" where
  "toUpper c = (let n = (of_char c :: int) in if 97 \<le> n \<and> n \<le> 122 then char_of (n - 32) else c)"

text \<open>\<^verbatim>\<open>String.prototype.toLowerCase\<close> and \<^verbatim>\<open>toUpperCase\<close>, on ASCII.\<close>

definition toLowerCase :: "string \<Rightarrow> string" where
  "toLowerCase s = map toLower s"

definition toUpperCase :: "string \<Rightarrow> string" where
  "toUpperCase s = map toUpper s"

text \<open>The characters of the modelled fragment (before the query).\<close>

definition plainChar :: "char \<Rightarrow> bool" where
  "plainChar c = (let n = (of_char c :: int) in
     33 \<le> n \<and> n \<le> 126 \<and> n \<notin> {34, 60, 62, 94, 96, 123, 125})"

definition schemeChar :: "char \<Rightarrow> bool" where
  "schemeChar c = (isAlpha c \<or> isDigit c \<or> c = CHR ''+'' \<or> c = CHR ''-'' \<or> c = CHR ''.'')"

text \<open>
  Scheme start state and scheme state: a letter, then letters, digits, \<^verbatim>\<open>+\<close>, \<^verbatim>\<open>-\<close>,
  \<^verbatim>\<open>.\<close> up to a colon.  Without a base URL anything else is a failure.
\<close>

definition parseScheme :: "string \<Rightarrow> (string \<times> string) option" where
  "parseScheme s =
     (case s of
        [] \<Rightarrow> None
      | c # _ \<Rightarrow>
          if \<not> isAlpha c then None
          else (case dropWhile schemeChar s of
                  [] \<Rightarrow> None
                | d # rest \<Rightarrow>
                    if d = CHR '':'' then Some (toLowerCase (takeWhile schemeChar s), rest)
                    else None))"

text \<open>The special schemes with a tuple origin, and their default ports.\<close>

definition defaultPort :: "string \<Rightarrow> int option" where
  "defaultPort scheme =
     (if scheme = ''http'' then Some 80
      else if scheme = ''https'' then Some 443
      else if scheme = ''ws'' then Some 80
      else if scheme = ''wss'' then Some 443
      else if scheme = ''ftp'' then Some 21
      else None)"

subsection \<open>Ports\<close>

definition digitChar :: "int \<Rightarrow> char" where
  "digitChar d = char_of (48 + d)"

text \<open>The decimal digits of a number that is not negative.\<close>

function showNat :: "int \<Rightarrow> string" where
  "showNat n = (if n < 10 then [digitChar n] else showNat (n div 10) @ [digitChar (n mod 10)])"
  by pat_completeness auto
termination
  by (relation "measure nat") auto

declare showNat.simps [simp del]

definition digitVal :: "char \<Rightarrow> int" where
  "digitVal c = of_char c - 48"

definition parseNat :: "string \<Rightarrow> int" where
  "parseNat s = foldl (\<lambda>acc c. acc * 10 + digitVal c) 0 s"

subsection \<open>Authority\<close>

text \<open>
  Authority state, host state and port state.  Everything up to the last \<^verbatim>\<open>@\<close> is
  credentials; the host runs to the first colon; the port is a possibly empty run of
  digits with value at most 65535.  The result is the raw host and the port.
\<close>

definition afterCredentials :: "string \<Rightarrow> string" where
  "afterCredentials a = rev (takeWhile (\<lambda>c. c \<noteq> CHR ''@'') (rev a))"

definition parsePort :: "string \<Rightarrow> int option option" where
  "parsePort p =
     (case p of
        [] \<Rightarrow> Some None
      | _ # ds \<Rightarrow>
          if ds = [] then Some None
          else if list_all isDigit ds \<and> parseNat ds \<le> 65535 then Some (Some (parseNat ds))
          else None)"

definition parseAuthority :: "string \<Rightarrow> (string \<times> int option) option" where
  "parseAuthority a =
     (let hp = afterCredentials a;
          host = takeWhile (\<lambda>c. c \<noteq> CHR '':'') hp
      in if host = [] \<and> (hp \<noteq> [] \<or> CHR ''@'' \<in> set a) then None
         else map_option (\<lambda>port. (host, port)) (parsePort (dropWhile (\<lambda>c. c \<noteq> CHR '':'') hp)))"

subsection \<open>Hosts\<close>

fun splitOn :: "(char \<Rightarrow> bool) \<Rightarrow> string \<Rightarrow> string list" where
  "splitOn sep [] = [[]]"
| "splitOn sep (c # cs) =
     (if sep c then [] # splitOn sep cs
      else (case splitOn sep cs of
              [] \<Rightarrow> [[c]]
            | x # xs \<Rightarrow> (c # x) # xs))"

text \<open>Forbidden domain code points, among the characters of the fragment.\<close>

definition forbiddenDomainChar :: "char \<Rightarrow> bool" where
  "forbiddenDomainChar c = (c \<in> {CHR ''%'', CHR ''/'', CHR '':'', CHR ''@'', CHR ''['', CHR 0x5C, CHR '']'', CHR ''|''})"

definition endsInNumber :: "string \<Rightarrow> bool" where
  "endsInNumber h =
     (let parts = splitOn (\<lambda>c. c = CHR ''.'') h;
          parts' = (if last parts = [] \<and> length parts > 1 then butlast parts else parts);
          l = last parts'
      in (l \<noteq> [] \<and> list_all isDigit l) \<or> (prefix ''0x'' l \<and> list_all isHexDigit (drop 2 l)))"

definition canonicalIPv4 :: "string \<Rightarrow> bool" where
  "canonicalIPv4 h =
     (let parts = splitOn (\<lambda>c. c = CHR ''.'') h
      in length parts = 4 \<and>
         list_all (\<lambda>p. p \<noteq> [] \<and> list_all isDigit p \<and> parseNat p \<le> 255 \<and> showNat (parseNat p) = p) parts)"

text \<open>
  The host parser for special schemes.  An ASCII domain without a percent sign and
  without a label that begins with \<^verbatim>\<open>xn--\<close> is lowercased; the empty host and a
  forbidden code point are failures; a host that ends in a number goes to the IPv4
  parser, which is modelled where it returns its input.
\<close>

definition hostParse :: "string \<Rightarrow> string Parse" where
  "hostParse h =
     (let l = toLowerCase h
      in if l = [] then Failure
         else if CHR ''%'' \<in> set l \<or> list_ex (prefix ''xn--'') (splitOn (\<lambda>c. c = CHR ''.'') l)
         then Unmodelled
         else if list_ex forbiddenDomainChar l then Failure
         else if endsInNumber l then (if canonicalIPv4 l then Success l else Unmodelled)
         else Success l)"

text \<open>
  The opaque-host parser of the other schemes only rejects (a forbidden host code point
  among the characters of the fragment); the origin is opaque.
\<close>

definition opaqueHostOk :: "string \<Rightarrow> bool" where
  "opaqueHostOk h = (\<not> list_ex (\<lambda>c. c \<in> {CHR ''['', CHR 0x5C, CHR '']'', CHR ''|''}) h)"

subsection \<open>Paths\<close>

definition isSingleDot :: "string \<Rightarrow> bool" where
  "isSingleDot seg = (toLowerCase seg \<in> {''.'', ''%2e''})"

definition isDoubleDot :: "string \<Rightarrow> bool" where
  "isDoubleDot seg = (toLowerCase seg \<in> {''..'', ''.%2e'', ''%2e.'', ''%2e%2e''})"

text \<open>
  Path state, one segment at a time: a double-dot segment shortens the path, a dot
  segment is dropped, and either one leaves an empty segment when it is the last.
\<close>

fun pathSegments :: "string list \<Rightarrow> string list \<Rightarrow> string list" where
  "pathSegments [] path = path"
| "pathSegments (seg # segs) path =
     (if isDoubleDot seg then pathSegments segs (if segs = [] then butlast path @ [[]] else butlast path)
      else if isSingleDot seg then pathSegments segs (if segs = [] then path @ [[]] else path)
      else pathSegments segs (path @ [seg]))"

definition parsePath :: "(char \<Rightarrow> bool) \<Rightarrow> string \<Rightarrow> string list" where
  "parsePath sep p =
     pathSegments (splitOn sep (case p of [] \<Rightarrow> [] | c # cs \<Rightarrow> if sep c then cs else p)) []"

definition serializePath :: "string list \<Rightarrow> string" where
  "serializePath path = concat (map (\<lambda>seg. CHR ''/'' # seg) path)"

subsection \<open>The parser\<close>

definition isSlash :: "char \<Rightarrow> bool" where
  "isSlash c = (c = CHR ''/'' \<or> c = CHR 0x5C)"

text \<open>
  Special authority slashes, authority, host, port and path states of a special scheme.
  The host is what follows the credentials.
\<close>

definition parseSpecial :: "string \<Rightarrow> int \<Rightarrow> string \<Rightarrow> URL Parse" where
  "parseSpecial scheme dp rest =
     (let r = dropWhile isSlash rest;
          authority = takeWhile (\<lambda>c. \<not> isSlash c) r
      in if prefix ''['' (afterCredentials authority) then Unmodelled
         else
           (case parseAuthority authority of
              None \<Rightarrow> Failure
            | Some (host, port) \<Rightarrow>
                (case hostParse host of
                   Failure \<Rightarrow> Failure
                 | Unmodelled \<Rightarrow> Unmodelled
                 | Success h \<Rightarrow>
                     Success \<lparr>origin = scheme @ ''://'' @ h @
                                (case port of
                                   None \<Rightarrow> []
                                 | Some p \<Rightarrow> if p = dp then [] else CHR '':'' # showNat p),
                              pathname = serializePath
                                (parsePath isSlash (dropWhile (\<lambda>c. \<not> isSlash c) r))\<rparr>)))"

text \<open>
  The other schemes: after \<^verbatim>\<open>//\<close> an authority and a path that may be empty, after a
  single slash a path, otherwise an opaque path kept as it is.  The origin is opaque
  and serialises as \<^verbatim>\<open>null\<close>.
\<close>

definition parseNonSpecial :: "string \<Rightarrow> URL Parse" where
  "parseNonSpecial rest =
     (if prefix ''//'' rest then
        (let r = drop 2 rest;
             authority = takeWhile (\<lambda>c. c \<noteq> CHR ''/'') r;
             p = dropWhile (\<lambda>c. c \<noteq> CHR ''/'') r
         in if prefix ''['' (afterCredentials authority) then Unmodelled
            else
              (case parseAuthority authority of
                 None \<Rightarrow> Failure
               | Some (host, port) \<Rightarrow>
                   if opaqueHostOk host
                   then Success \<lparr>origin = ''null'',
                          pathname = (if p = [] then []
                                      else serializePath (parsePath (\<lambda>c. c = CHR ''/'') p))\<rparr>
                   else Failure))
      else if prefix ''/'' rest then
        Success \<lparr>origin = ''null'', pathname = serializePath (parsePath (\<lambda>c. c = CHR ''/'') rest)\<rparr>
      else Success \<lparr>origin = ''null'', pathname = rest\<rparr>)"

definition parseURL :: "string \<Rightarrow> URL Parse" where
  "parseURL input =
     (let core = takeWhile (\<lambda>c. c \<noteq> CHR ''#'' \<and> c \<noteq> CHR ''?'') input in
      if \<not> list_all plainChar core then Unmodelled
      else (case parseScheme core of
              None \<Rightarrow> Failure
            | Some (scheme, rest) \<Rightarrow>
                if scheme = ''file'' \<or> scheme = ''blob'' then Unmodelled
                else (case defaultPort scheme of
                        Some dp \<Rightarrow> parseSpecial scheme dp rest
                      | None \<Rightarrow> parseNonSpecial rest)))"

section \<open>Data model\<close>

text \<open>The value stored in \<^verbatim>\<open>checkedImages\<close> for a normalised image URL.\<close>

record CacheEntry =
  exists :: bool
  verified :: bool
  originalUrl :: string
  status :: int

text \<open>
  One entry of \<^verbatim>\<open>imagesAnalysis.details\<close>.  \<^verbatim>\<open>verifiedExists\<close> and \<^verbatim>\<open>cachedCheck\<close> are
  absent until the verification loop sets them.
\<close>

record ImageInfo =
  src :: string
  alt :: string
  naturalWidth :: int
  naturalHeight :: int
  complete :: bool
  isWorking :: bool
  verifiedExists :: "bool option"
  cachedCheck :: "bool option"

record ImagesAnalysis =
  total' :: int
  working :: int
  broken :: int
  withAlt :: int
  withoutAlt :: int
  details :: "ImageInfo list"

text \<open>
  \<^verbatim>\<open>pageResult\<close>.  The last four fields are not in the object literal: the first three
  are added by \<^verbatim>\<open>setupErrorHandling\<close>, \<^verbatim>\<open>documentLinks\<close> at the end of a successful
  HTML inspection; \<open>None\<close> is the absent property.
\<close>

record PageResult =
  url :: string
  title :: string
  metaDescription :: string
  jsErrors :: "string list"
  consoleErrors :: "string list"
  brokenImages :: "string list"
  allImages :: "string list"
  imagesAnalysis :: ImagesAnalysis
  links :: "string list"
  statusCode :: int
  loadTime :: int
  metaTags :: "(string \<times> string) list"
  isDocument :: bool
  documentType :: string
  documentStatus :: string
  benignErrors :: "string list option"
  networkErrors :: "string list option"
  warnings :: "string list option"
  documentLinks :: "string list option"

text \<open>
  The module-level state: \<^verbatim>\<open>visited\<close>, \<^verbatim>\<open>queue\<close>, \<^verbatim>\<open>results\<close> and \<^verbatim>\<open>checkedImages\<close>.
  \<open>headRequests\<close> is the trace of the \<^verbatim>\<open>fetch(url, { method: 'HEAD' })\<close> calls that
  \<^verbatim>\<open>checkImageExists\<close> has sent into the page, oldest first.
\<close>

record CrawlState =
  visited :: "string set"
  queue :: "string list"
  results :: "PageResult list"
  checkedImages :: "string \<rightharpoonup> CacheEntry"
  headRequests :: "string list"

section \<open>The environment\<close>

text \<open>
  Everything Playwright's \<^verbatim>\<open>page\<close> returns is a parameter of the model.  A navigation
  either rejects with a message or resolves with a response whose status may be missing
  (\<^verbatim>\<open>response?.status()\<close>); it takes \<open>elapsed\<close> milliseconds (\<^verbatim>\<open>Date.now() - startTime\<close>)
  and fires the events \<open>events\<close> meanwhile.
\<close>

datatype PageEvent =
  PageError string
| ConsoleMessage string string
| Response int string

datatype GotoResult =
  Rejected string
| Resolved "int option"

record Navigation =
  events :: "PageEvent list"
  elapsed :: int
  response :: GotoResult

text \<open>An \<^verbatim>\<open>img\<close> element as the in-page analysis reads it.\<close>

record ImgElement =
  img_src :: string
  img_alt :: string
  img_naturalWidth :: int
  img_naturalHeight :: int
  img_complete :: bool

text \<open>
  What the loaded page answers.  \<open>None\<close> is a rejected promise: \<^verbatim>\<open>page.title()\<close> and
  \<^verbatim>\<open>page.$$eval("a[href]", ...)\<close> are awaited outside any \<^verbatim>\<open>try\<close>, the other three are
  caught.  \<open>dom_links\<close> is the array \<^verbatim>\<open>$$eval\<close> returns (the hrefs the callback could
  re-serialise), \<open>dom_events\<close> the events fired after the navigation has resolved.
\<close>

record Dom =
  dom_title :: "string option"
  dom_metaDescription :: "string option"
  dom_metaTags :: "(string \<times> string) list option"
  dom_images :: "ImgElement list option"
  dom_links :: "string list option"
  dom_events :: "PageEvent list"

text \<open>
  The in-page \<^verbatim>\<open>fetch\<close> of \<^verbatim>\<open>checkImageExists\<close>: it throws or answers with
  \<^verbatim>\<open>status\<close> and \<^verbatim>\<open>ok\<close>.
\<close>

datatype FetchOutcome =
  FetchThrew
| FetchResponse int bool

text \<open>
  \<open>ROOT\<close> is the configured constant.  \<open>goto\<close> is \<^verbatim>\<open>page.goto\<close> waiting for network
  idle, \<open>gotoDocument\<close> the one of \<^verbatim>\<open>checkDocumentUrl\<close>; \<open>fetchHead p u\<close> is the HEAD request
  for \<open>u\<close> issued while the page shows \<open>p\<close>, \<open>None\<close> when \<^verbatim>\<open>page.evaluate\<close> rejects.
  \<open>unmodelledURL\<close> is the platform's \<^verbatim>\<open>new URL\<close> on the inputs that \<open>parseURL\<close> does
  not model, \<open>None\<close> where it throws.
\<close>

record Web =
  ROOT :: string
  goto :: "string \<Rightarrow> Navigation"
  gotoDocument :: "string \<Rightarrow> Navigation"
  pageDom :: "string \<Rightarrow> Dom"
  fetchHead :: "string \<Rightarrow> string \<Rightarrow> FetchOutcome option"
  unmodelledURL :: "string \<Rightarrow> URL option"

section \<open>Normalisers and the asset classifier\<close>

text \<open>
  \<^verbatim>\<open>new URL(input)\<close> in the environment \<open>W\<close>; \<open>None\<close> is the thrown \<^verbatim>\<open>TypeError\<close>.
\<close>

definition newURL :: "Web \<Rightarrow> string \<Rightarrow> URL option" where
  "newURL W input =
     (case parseURL input of
        Failure \<Rightarrow> None
      | Unmodelled \<Rightarrow> unmodelledURL W input
      | Success parsedUrl \<Rightarrow> Some parsedUrl)"

definition DOCUMENT_EXTENSIONS :: "string list" where
  "DOCUMENT_EXTENSIONS =
     [''.pdf'', ''.doc'', ''.docx'', ''.xls'', ''.xlsx'', ''.ppt'', ''.pptx'',
      ''.jpg'', ''.jpeg'', ''.png'', ''.gif'', ''.bmp'', ''.svg'', ''.webp'',
      ''.mp4'', ''.avi'', ''.mov'', ''.wmv'',
      ''.zip'', ''.rar'', ''.7z'',
      ''.txt'', ''.rtf'']"

text \<open>\<^verbatim>\<open>s.replace(/\/+$/, '')\<close>: the run of slashes at the end of the string is removed.\<close>

definition stripTrailingSlashes :: "string \<Rightarrow> string" where
  "stripTrailingSlashes s = rev (dropWhile (\<lambda>c. c = CHR ''/'') (rev s))"

definition normalizeUrl :: "Web \<Rightarrow> string \<Rightarrow> string" where
  "normalizeUrl W u =
     (case newURL W u of
        Some parsedUrl \<Rightarrow> stripTrailingSlashes (origin parsedUrl @ pathname parsedUrl)
      | None \<Rightarrow> u)"

definition normalizeImageUrl :: "Web \<Rightarrow> string \<Rightarrow> string" where
  "normalizeImageUrl W u =
     (case newURL W u of
        Some parsedUrl \<Rightarrow> origin parsedUrl @ pathname parsedUrl
      | None \<Rightarrow> u)"

definition isDocumentUrl :: "Web \<Rightarrow> string \<Rightarrow> bool" where
  "isDocumentUrl W u =
     (case newURL W u of
        Some parsedUrl \<Rightarrow>
          list_ex (\<lambda>ext. suffix ext (toLowerCase (pathname parsedUrl))) DOCUMENT_EXTENSIONS
      | None \<Rightarrow> False)"

section \<open>Error listeners\<close>

text \<open>
  The patterns of \<^verbatim>\<open>setupErrorHandling\<close> are literal texts (\<^verbatim>\<open>jQuery\.expr\<close>,
  \<^verbatim>\<open>Script error\.\<close> escape their dots), so \<^verbatim>\<open>pattern.test(message)\<close> is a substring test.
\<close>

definition benignPageErrors :: "string list" where
  "benignPageErrors =
     [''Syntax error, unrecognized expression:'', ''jQuery.expr'', ''Script error.'',
      ''Unable to preventDefault'', ''Cannot read property'', ''is not defined'',
      ''null is not an object'', ''undefined is not an object'']"

definition benignConsoleErrors :: "string list" where
  "benignConsoleErrors =
     [''Syntax error, unrecognized expression:'', ''Failed to load resource'',
      ''Blocked a frame with origin'', ''Content Security Policy'', ''Loading failed for the'']"

definition push :: "'a \<Rightarrow> 'a list option \<Rightarrow> 'a list option" where
  "push x xs = map_option (\<lambda>l. l @ [x]) xs"

fun handleEvent :: "PageEvent \<Rightarrow> PageResult \<Rightarrow> PageResult" where
  "handleEvent (PageError message) pageResult =
     (if list_ex (\<lambda>pattern. sublist pattern message) benignPageErrors
      then pageResult\<lparr>benignErrors := push message (benignErrors pageResult)\<rparr>
      else pageResult\<lparr>jsErrors := jsErrors pageResult @ [message]\<rparr>)"
| "handleEvent (ConsoleMessage type text) pageResult =
     (if type = ''error'' then
        (if list_ex (\<lambda>pattern. sublist pattern text) benignConsoleErrors
         then pageResult\<lparr>benignErrors := push text (benignErrors pageResult)\<rparr>
         else pageResult\<lparr>consoleErrors := consoleErrors pageResult @ [text]\<rparr>)
      else if type = ''warning'' then pageResult\<lparr>warnings := push text (warnings pageResult)\<rparr>
      else pageResult)"
| "handleEvent (Response st u) pageResult =
     (if st \<ge> 400
      then pageResult\<lparr>networkErrors := push (showNat st @ '' - '' @ u) (networkErrors pageResult)\<rparr>
      else pageResult)"

definition deliver :: "PageEvent list \<Rightarrow> PageResult \<Rightarrow> PageResult" where
  "deliver evs pageResult = foldl (\<lambda>r e. handleEvent e r) pageResult evs"

text \<open>
  \<^verbatim>\<open>setupErrorHandling\<close> initialises the three extra lists and registers three listeners
  on the one \<^verbatim>\<open>page\<close> object the whole crawl uses.  The listeners are never removed and
  each closes over its own \<^verbatim>\<open>pageResult\<close>, so an event reaches the result under
  construction and every earlier result that went through \<^verbatim>\<open>setupErrorHandling\<close>: those
  whose \<^verbatim>\<open>benignErrors\<close> is defined.
\<close>

definition setupErrorHandling :: "PageResult \<Rightarrow> PageResult" where
  "setupErrorHandling pageResult =
     pageResult\<lparr>benignErrors := Some [], networkErrors := Some [], warnings := Some []\<rparr>"

definition dispatch :: "PageEvent list \<Rightarrow> PageResult list \<Rightarrow> PageResult list" where
  "dispatch evs rs = map (\<lambda>r. if benignErrors r \<noteq> None then deliver evs r else r) rs"

section \<open>Documents\<close>

text \<open>\<^verbatim>\<open>s.split(c).pop()\<close>: the text after the last \<open>c\<close>, the whole string without one.\<close>

definition splitPop :: "char \<Rightarrow> string \<Rightarrow> string" where
  "splitPop c s = rev (takeWhile (\<lambda>d. d \<noteq> c) (rev s))"

text \<open>\<^verbatim>\<open>response?.status() || 200\<close>.\<close>

definition statusOr200 :: "int option \<Rightarrow> int" where
  "statusOr200 st = (case st of None \<Rightarrow> 200 | Some n \<Rightarrow> if n = 0 then 200 else n)"

text \<open>The page emoji U+1F4C4 and the warning sign U+26A0, in UTF-8.\<close>

definition pageEmoji :: string where
  "pageEmoji = [CHR 0xF0, CHR 0x9F, CHR 0x93, CHR 0x84]"

definition warningSign :: string where
  "warningSign = [CHR 0xE2, CHR 0x9A, CHR 0xA0]"

definition checkDocumentUrl :: "Web \<Rightarrow> string \<Rightarrow> PageResult \<Rightarrow> bool \<times> PageResult" where
  "checkDocumentUrl W u pageResult =
     (let nav = gotoDocument W u in
      case response nav of
        Resolved st \<Rightarrow>
          (let ty = (if toUpperCase (splitPop CHR ''.'' u) = [] then ''DOCUMENT''
                     else toUpperCase (splitPop CHR ''.'' u));
               r = pageResult\<lparr>loadTime := elapsed nav, statusCode := statusOr200 st,
                                isDocument := True, documentType := ty\<rparr>
           in (True,
               case st of
                 None \<Rightarrow>
                   r\<lparr>documentStatus := ''accessible'',
                     title := pageEmoji @ '' '' @ ty @ '' Document: '' @ splitPop CHR ''/'' u\<rparr>
               | Some n \<Rightarrow>
                   if n \<ge> 400
                   then r\<lparr>documentStatus := ''broken'',
                          jsErrors := jsErrors r @ [''Document returned status: '' @ showNat n]\<rparr>
                   else r\<lparr>documentStatus := ''accessible'',
                          title := pageEmoji @ '' '' @ ty @ '' Document: '' @ splitPop CHR ''/'' u\<rparr>))
      | Rejected message \<Rightarrow>
          (False,
           pageResult\<lparr>loadTime := elapsed nav, documentStatus := ''broken'',
                       jsErrors := jsErrors pageResult @ [''Failed to load document: '' @ message]\<rparr>))"

section \<open>Images\<close>

text \<open>
  \<^verbatim>\<open>checkImageExists(page, imageUrl)\<close>, with the URL \<open>p\<close> the page shows.  A cache hit
  returns the stored \<^verbatim>\<open>exists\<close>; otherwise the HEAD request goes to the literal URL and
  its outcome is stored under the normalised one.  The in-page callback turns a throwing
  \<^verbatim>\<open>fetch\<close> into status 0, not ok; a rejected \<^verbatim>\<open>page.evaluate\<close> is caught and cached
  as a failure.
\<close>

definition checkImageExists :: "Web \<Rightarrow> string \<Rightarrow> string \<Rightarrow> CrawlState \<Rightarrow> bool \<times> CrawlState" where
  "checkImageExists W p imageUrl s =
     (let normalizedImageUrl = normalizeImageUrl W imageUrl in
      case checkedImages s normalizedImageUrl of
        Some existingCheck \<Rightarrow> (exists existingCheck, s)
      | None \<Rightarrow>
          (let s' = s\<lparr>headRequests := headRequests s @ [imageUrl]\<rparr> in
           case fetchHead W p imageUrl of
             Some outcome \<Rightarrow>
               (let st = (case outcome of FetchResponse n _ \<Rightarrow> n | FetchThrew \<Rightarrow> 0);
                    ok = (case outcome of FetchResponse _ b \<Rightarrow> b | FetchThrew \<Rightarrow> False);
                    ex = (ok \<and> st = 200)
                in (ex, s'\<lparr>checkedImages := (checkedImages s')(normalizedImageUrl \<mapsto>
                             \<lparr>exists = ex, verified = True, originalUrl = imageUrl, status = st\<rparr>)\<rparr>))
           | None \<Rightarrow>
               (False, s'\<lparr>checkedImages := (checkedImages s')(normalizedImageUrl \<mapsto>
                            \<lparr>exists = False, verified = True, originalUrl = imageUrl, status = 0\<rparr>)\<rparr>)))"

text \<open>
  The in-page image analysis.  \<^verbatim>\<open>img.alt.trim() !== ''\<close> is modelled on ASCII white
  space.
\<close>

definition isWhiteSpace :: "char \<Rightarrow> bool" where
  "isWhiteSpace c = ((of_char c :: int) \<in> {9, 10, 11, 12, 13, 32})"

definition browserWorking :: "ImgElement \<Rightarrow> bool" where
  "browserWorking img = (img_complete img \<and> img_naturalWidth img > 0 \<and> img_naturalHeight img > 0)"

definition analyseImage :: "ImagesAnalysis \<Rightarrow> ImgElement \<Rightarrow> ImagesAnalysis" where
  "analyseImage analysis img =
     (let imageInfo = \<lparr>src = img_src img, alt = img_alt img,
                       naturalWidth = img_naturalWidth img, naturalHeight = img_naturalHeight img,
                       complete = img_complete img, isWorking = browserWorking img,
                       verifiedExists = None, cachedCheck = None\<rparr>;
          a1 = (if \<not> list_all isWhiteSpace (img_alt img)
                then analysis\<lparr>withAlt := withAlt analysis + 1\<rparr>
                else analysis\<lparr>withoutAlt := withoutAlt analysis + 1\<rparr>);
          a2 = (if browserWorking img
                then a1\<lparr>working := working a1 + 1\<rparr>
                else a1\<lparr>broken := broken a1 + 1\<rparr>)
      in a2\<lparr>details := details a2 @ [imageInfo]\<rparr>)"

definition analyseImages :: "ImgElement list \<Rightarrow> ImagesAnalysis" where
  "analyseImages images =
     foldl analyseImage
       \<lparr>total' = int (length images), working = 0, broken = 0, withAlt = 0, withoutAlt = 0,
        details = []\<rparr>
       images"

text \<open>
  One round of the verification loop: it updates the entry, the two counters of the
  page's analysis, and through \<^verbatim>\<open>checkImageExists\<close> the cache.
\<close>

definition downgrade :: "bool \<Rightarrow> ImageInfo \<Rightarrow> ImagesAnalysis \<Rightarrow> ImageInfo \<times> ImagesAnalysis" where
  "downgrade ex imageInfo a =
     (if \<not> ex \<and> isWorking imageInfo
      then (imageInfo\<lparr>isWorking := False\<rparr>, a\<lparr>working := working a - 1, broken := broken a + 1\<rparr>)
      else (imageInfo, a))"

definition verifyImage ::
  "Web \<Rightarrow> string \<Rightarrow> ImageInfo \<Rightarrow> ImagesAnalysis \<Rightarrow> CrawlState \<Rightarrow> ImageInfo \<times> ImagesAnalysis \<times> CrawlState" where
  "verifyImage W p imageInfo a s =
     (if src imageInfo \<noteq> [] \<and> \<not> prefix ''data:'' (src imageInfo) then
        (case checkedImages s (normalizeImageUrl W (src imageInfo)) of
           Some existingCheck \<Rightarrow>
             (case downgrade (exists existingCheck)
                     (imageInfo\<lparr>verifiedExists := Some (exists existingCheck), cachedCheck := Some True\<rparr>) a of
                (i, a') \<Rightarrow> (i, a', s))
         | None \<Rightarrow>
             (case checkImageExists W p (src imageInfo) s of
                (ex, s') \<Rightarrow>
                  (case downgrade ex (imageInfo\<lparr>verifiedExists := Some ex, cachedCheck := Some False\<rparr>) a of
                     (i, a') \<Rightarrow> (i, a', s'))))
      else (imageInfo, a, s))"

fun verifyImages ::
  "Web \<Rightarrow> string \<Rightarrow> ImageInfo list \<Rightarrow> ImagesAnalysis \<Rightarrow> CrawlState
     \<Rightarrow> ImageInfo list \<times> ImagesAnalysis \<times> CrawlState" where
  "verifyImages W p [] a s = ([], a, s)"
| "verifyImages W p (imageInfo # rest) a s =
     (case verifyImage W p imageInfo a s of
        (i, a', s') \<Rightarrow>
          (case verifyImages W p rest a' s' of
             (infos, a'', s'') \<Rightarrow> (i # infos, a'', s'')))"

section \<open>Links\<close>

text \<open>
  The body of \<^verbatim>\<open>allLinks.forEach\<close>, on \<^verbatim>\<open>internalLinks\<close>, \<^verbatim>\<open>documentLinks\<close> and the queue;
  \<^verbatim>\<open>link.startsWith(ROOT)\<close> is \<open>prefix\<close>.
\<close>

definition linkStep ::
  "Web \<Rightarrow> string set \<Rightarrow> string list \<times> string list \<times> string list \<Rightarrow> string
     \<Rightarrow> string list \<times> string list \<times> string list" where
  "linkStep W vis acc link =
     (case acc of
        (internalLinks, docLinks, q) \<Rightarrow>
          (let normalizedLink = normalizeUrl W link in
           if isDocumentUrl W link then (internalLinks, docLinks @ [link], q)
           else if prefix (ROOT W) link then
             (if normalizedLink \<notin> vis \<and> \<not> list_ex (\<lambda>x. normalizeUrl W x = normalizedLink) q
              then (internalLinks @ [link], docLinks, q @ [link])
              else (internalLinks, docLinks, q))
           else (internalLinks, docLinks, q)))"

fun partitionLinks ::
  "Web \<Rightarrow> string set \<Rightarrow> string list \<Rightarrow> string list \<times> string list \<times> string list
     \<Rightarrow> string list \<times> string list \<times> string list" where
  "partitionLinks W vis [] acc = acc"
| "partitionLinks W vis (link # allLinks) acc = partitionLinks W vis allLinks (linkStep W vis acc link)"

section \<open>The crawl loop\<close>

definition newPageResult :: "string \<Rightarrow> PageResult" where
  "newPageResult u =
     \<lparr>url = u, title = [], metaDescription = [], jsErrors = [], consoleErrors = [],
      brokenImages = [], allImages = [],
      imagesAnalysis = \<lparr>total' = 0, working = 0, broken = 0, withAlt = 0, withoutAlt = 0, details = []\<rparr>,
      links = [], statusCode = 200, loadTime = 0, metaTags = [],
      isDocument = False, documentType = [], documentStatus = [],
      benignErrors = None, networkErrors = None, warnings = None, documentLinks = None\<rparr>"

text \<open>
  The image block of the loop body.  Its \<^verbatim>\<open>try\<close> catches a rejected analysis, which
  leaves the result and the cache as they were.
\<close>

definition inspectImages :: "Web \<Rightarrow> string \<Rightarrow> PageResult \<Rightarrow> CrawlState \<Rightarrow> PageResult \<times> CrawlState" where
  "inspectImages W u pageResult s =
     (case dom_images (pageDom W u) of
        None \<Rightarrow> (pageResult, s)
      | Some images \<Rightarrow>
          (case verifyImages W u (details (analyseImages images)) (analyseImages images) s of
             (ds, a, s') \<Rightarrow>
               (pageResult\<lparr>imagesAnalysis := a\<lparr>details := ds\<rparr>,
                            brokenImages := map src (filter (\<lambda>img. \<not> isWorking img) ds)\<rparr>,
                s')))"

text \<open>
  The loop body after a successful navigation.  \<open>None\<close>: a rejection of
  \<^verbatim>\<open>page.title()\<close> or of the link extraction leaves \<^verbatim>\<open>crawlAndTest\<close>.
\<close>

definition inspectPage :: "Web \<Rightarrow> string \<Rightarrow> PageResult \<Rightarrow> CrawlState \<Rightarrow> CrawlState option" where
  "inspectPage W u pageResult s =
     (case dom_title (pageDom W u) of
        None \<Rightarrow> None
      | Some t \<Rightarrow>
          (let r1 = pageResult\<lparr>title := (if t = [] then warningSign @ '' Missing <title>'' else t),
                                 metaDescription := (case dom_metaDescription (pageDom W u) of
                                                       None \<Rightarrow> [] | Some d \<Rightarrow> d),
                                 metaTags := (case dom_metaTags (pageDom W u) of
                                                None \<Rightarrow> metaTags pageResult | Some m \<Rightarrow> m)\<rparr>
           in case inspectImages W u r1 s of
                (r2, s') \<Rightarrow>
                  (case dom_links (pageDom W u) of
                     None \<Rightarrow> None
                   | Some allLinks \<Rightarrow>
                       (case partitionLinks W (visited s') allLinks ([], [], queue s') of
                          (internalLinks, docLinks, q) \<Rightarrow>
                            Some (s'\<lparr>queue := q,
                                     results := dispatch (dom_events (pageDom W u)) (results s') @
                                       [deliver (dom_events (pageDom W u))
                                          (r2\<lparr>links := internalLinks, documentLinks := Some docLinks\<rparr>)]\<rparr>)))))"

text \<open>One round of \<^verbatim>\<open>while (queue.length > 0)\<close>.\<close>

definition crawlStep :: "Web \<Rightarrow> CrawlState \<Rightarrow> CrawlState option" where
  "crawlStep W s =
     (case queue s of
        [] \<Rightarrow> Some s
      | u # rest \<Rightarrow>
          if normalizeUrl W u \<in> visited s then Some (s\<lparr>queue := rest\<rparr>)
          else
            (let s1 = s\<lparr>queue := rest, visited := insert (normalizeUrl W u) (visited s)\<rparr> in
             if isDocumentUrl W u then
               Some (s1\<lparr>results := dispatch (events (gotoDocument W u)) (results s1) @
                                     [snd (checkDocumentUrl W u (newPageResult u))]\<rparr>)
             else
               (let nav = goto W u;
                    pageResult = deliver (events nav) (setupErrorHandling (newPageResult u));
                    s2 = s1\<lparr>results := dispatch (events nav) (results s1)\<rparr>
                in case response nav of
                     Rejected message \<Rightarrow>
                       Some (s2\<lparr>results := results s2 @
                                   [pageResult\<lparr>jsErrors := jsErrors pageResult @ [''Page failed to load: '' @ message],
                                               loadTime := elapsed nav\<rparr>]\<rparr>)
                   | Resolved st \<Rightarrow>
                       inspectPage W u
                         (pageResult\<lparr>loadTime := elapsed nav, statusCode := statusOr200 st\<rparr>) s2)))"

text \<open>
  The loop, with fuel: \<open>Finished\<close> when the queue is empty, \<open>Crashed\<close> when a rejection
  escapes, \<open>Running\<close> with the state reached when the fuel is used up.
\<close>

datatype Outcome =
  Finished CrawlState
| Crashed
| Running CrawlState

fun crawlLoop :: "nat \<Rightarrow> Web \<Rightarrow> CrawlState \<Rightarrow> Outcome" where
  "crawlLoop 0 W s = (if queue s = [] then Finished s else Running s)"
| "crawlLoop (Suc n) W s =
     (if queue s = [] then Finished s
      else (case crawlStep W s of
              None \<Rightarrow> Crashed
            | Some s' \<Rightarrow> crawlLoop n W s'))"

definition initialState :: "Web \<Rightarrow> CrawlState" where
  "initialState W =
     \<lparr>visited = {}, queue = [ROOT W], results = [], checkedImages = Map.empty, headRequests = []\<rparr>"

definition crawlAndTest :: "nat \<Rightarrow> Web \<Rightarrow> Outcome" where
  "crawlAndTest n W = crawlLoop n W (initialState W)"

text \<open>The states the loop passes through, from the initial one.\<close>

inductive reachable :: "Web \<Rightarrow> CrawlState \<Rightarrow> bool" for W :: Web where
  start: "reachable W (initialState W)"
| step: "reachable W s \<Longrightarrow> queue s \<noteq> [] \<Longrightarrow> crawlStep W s = Some s' \<Longrightarrow> reachable W s'"

section \<open>Invariants\<close>

text \<open>
  The cache and the trace of HEAD requests: one request per cached identity, and every
  entry marked verified.
\<close>

definition cacheInv :: "Web \<Rightarrow> CrawlState \<Rightarrow> bool" where
  "cacheInv W s =
     (distinct (map (normalizeImageUrl W) (headRequests s))
      \<and> normalizeImageUrl W ` set (headRequests s) = dom (checkedImages s)
      \<and> (\<forall>e\<in>ran (checkedImages s). verified e))"

text \<open>
  What the verification loop leaves in a page's image analysis, against the \<^verbatim>\<open>img\<close>
  elements the browser reported: an entry is working exactly when the browser rendered
  the image and no check said it does not exist, and the two counters have moved by the
  number of entries that were downgraded.
\<close>

definition downgrades :: "ImgElement list \<Rightarrow> ImageInfo list \<Rightarrow> nat" where
  "downgrades images ds =
     length (filter (\<lambda>(img, d). browserWorking img \<and> verifiedExists d = Some False) (zip images ds))"

definition reconciled :: "ImgElement list \<Rightarrow> ImagesAnalysis \<Rightarrow> bool" where
  "reconciled images a =
     (list_all2 (\<lambda>img d. src d = img_src img
                   \<and> (isWorking d \<longleftrightarrow> browserWorking img \<and> verifiedExists d \<noteq> Some False))
        images (details a)
      \<and> working a = int (length (filter browserWorking images)) - int (downgrades images (details a))
      \<and> broken a = int (length (filter (\<lambda>img. \<not> browserWorking img) images))
                     + int (downgrades images (details a)))"

text \<open>
  An entry of \<open>details\<close> against a cache: an entry with a source that is not a
  \<^verbatim>\<open>data:\<close> URL carries the \<open>exists\<close> of the cache entry of its image identity, any
  other entry was not verified.
\<close>

definition verifiedAgainst :: "Web \<Rightarrow> (string \<rightharpoonup> CacheEntry) \<Rightarrow> ImageInfo \<Rightarrow> bool" where
  "verifiedAgainst W cache d =
     (if src d \<noteq> [] \<and> \<not> prefix ''data:'' (src d)
      then (case cache (normalizeImageUrl W (src d)) of
              None \<Rightarrow> False
            | Some e \<Rightarrow> verifiedExists d = Some (exists e))
      else verifiedExists d = None)"

text \<open>
  The cache says that the image \<open>u\<close> does not exist: \<open>u\<close> is a source the verification
  loop looks at, and the entry of its identity has \<open>exists = False\<close>.
\<close>

definition cacheBroken :: "Web \<Rightarrow> CrawlState \<Rightarrow> string \<Rightarrow> bool" where
  "cacheBroken W s u =
     (u \<noteq> [] \<and> \<not> prefix ''data:'' u
      \<and> (case checkedImages s (normalizeImageUrl W u) of
            None \<Rightarrow> False
          | Some e \<Rightarrow> \<not> exists e))"

text \<open>
  The result of a target whose HTML navigation was rejected: the failure message is in
  \<open>jsErrors\<close>, \<open>loadTime\<close> is the time the navigation took, and the fields that no
  listener writes are as \<^verbatim>\<open>pageResult\<close> was created.
\<close>

definition failureRecorded :: "Web \<Rightarrow> PageResult \<Rightarrow> bool" where
  "failureRecorded W r =
     (\<forall>message. response (goto W (url r)) = Rejected message \<longrightarrow>
        (''Page failed to load: '' @ message) \<in> set (jsErrors r)
        \<and> loadTime r = elapsed (goto W (url r))
        \<and> title r = [] \<and> metaDescription r = [] \<and> brokenImages r = [] \<and> allImages r = []
        \<and> imagesAnalysis r = imagesAnalysis (newPageResult (url r))
        \<and> links r = [] \<and> statusCode r = 200 \<and> metaTags r = []
        \<and> \<not> isDocument r \<and> documentType r = [] \<and> documentStatus r = []
        \<and> documentLinks r = None)"

text \<open>
  What a result says about links: its \<open>links\<close> begin with \<open>ROOT\<close> and are no assets;
  document links are assets and only HTML pages have them; a result whose URL is no
  asset did not go through \<^verbatim>\<open>checkDocumentUrl\<close>; and the result of an HTML page that
  loaded lists exactly the asset links of the page as document links, and only links
  of the page as links.
\<close>

definition linksRecorded :: "Web \<Rightarrow> PageResult \<Rightarrow> bool" where
  "linksRecorded W r =
     ((\<forall>l\<in>set (links r). prefix (ROOT W) l \<and> \<not> isDocumentUrl W l)
      \<and> (\<forall>ds. documentLinks r = Some ds \<longrightarrow> \<not> isDocumentUrl W (url r) \<and> (\<forall>d\<in>set ds. isDocumentUrl W d))
      \<and> (\<not> isDocumentUrl W (url r) \<longrightarrow> \<not> isDocument r \<and> documentStatus r = [])
      \<and> (\<forall>st ls. \<not> isDocumentUrl W (url r) \<and> response (goto W (url r)) = Resolved st
                    \<and> dom_links (pageDom W (url r)) = Some ls
             \<longrightarrow> documentLinks r = Some (filter (isDocumentUrl W) ls) \<and> set (links r) \<subseteq> set ls))"

section \<open>Example sites\<close>

text \<open>
  Every URL the runs over these sites hand to \<^verbatim>\<open>new URL\<close> is one that \<open>parseURL\<close> models,
  so the value of \<open>unmodelledURL\<close> plays no part in them.
\<close>

definition loadedIn :: "int \<Rightarrow> Navigation" where
  "loadedIn ms = \<lparr>events = [], elapsed = ms, response = Resolved (Some 200)\<rparr>"

definition img :: "string \<Rightarrow> string \<Rightarrow> ImgElement" where
  "img s a = \<lparr>img_src = s, img_alt = a, img_naturalWidth = 64, img_naturalHeight = 64,
              img_complete = True\<rparr>"

text \<open>
  A small site under \<^verbatim>\<open>https://x.com\<close>.  The home page links to the about page twice
  (with and without a trailing slash), to itself, to a PDF, to another origin, and to a
  page whose navigation times out; the about page links back.  Both pages show the same
  two images under different query strings, and the browser rendered all of them; the
  HEAD request for \<^verbatim>\<open>gone.png\<close> answers 404.
\<close>

definition siteWeb :: Web where
  "siteWeb =
     \<lparr>ROOT = ''https://x.com'',
      goto = (\<lambda>u.
        if u = ''https://x.com/slow''
        then \<lparr>events = [ConsoleMessage ''error'' ''boom''], elapsed = 30000,
              response = Rejected ''Timeout 30000ms exceeded.''\<rparr>
        else loadedIn 120),
      gotoDocument = (\<lambda>u. loadedIn 40),
      pageDom = (\<lambda>u.
        if u = ''https://x.com'' then
          \<lparr>dom_title = Some ''Home'', dom_metaDescription = None, dom_metaTags = None,
           dom_images = Some [img ''https://x.com/logo.png'' ''logo'',
                              img ''https://x.com/gone.png?v=1'' [],
                              img ''data:image/png;base64,AAAA'' ''dot''],
           dom_links = Some [''https://x.com/about'', ''https://x.com/about/'', ''https://x.com/'',
                             ''https://x.com/files/report.pdf'', ''https://other.com/page'',
                             ''https://other.com/brochure.pdf'', ''https://x.com/slow''],
           dom_events = []\<rparr>
        else
          \<lparr>dom_title = Some ''About'', dom_metaDescription = Some ''About us'', dom_metaTags = None,
           dom_images = Some [img ''https://x.com/logo.png?v=2'' ''logo'',
                              img ''https://x.com/gone.png?v=2'' ''team''],
           dom_links = Some [''https://x.com'', ''https://x.com/about#team''],
           dom_events = []\<rparr>),
      fetchHead = (\<lambda>p u.
        if prefix ''https://x.com/gone.png'' u then Some (FetchResponse 404 False)
        else Some (FetchResponse 200 True)),
      unmodelledURL = (\<lambda>u. None)\<rparr>"

text \<open>
  A site whose every navigation times out after 30 seconds, a console error having been
  logged meanwhile.
\<close>

definition failWeb :: Web where
  "failWeb =
     \<lparr>ROOT = ''https://x.com'',
      goto = (\<lambda>u. \<lparr>events = [ConsoleMessage ''error'' ''boom''], elapsed = 30000,
                     response = Rejected ''Timeout 30000ms exceeded.''\<rparr>),
      gotoDocument = (\<lambda>u. loadedIn 40),
      pageDom = (\<lambda>u. \<lparr>dom_title = Some ''Home'', dom_metaDescription = None, dom_metaTags = None,
                        dom_images = None, dom_links = Some [], dom_events = []\<rparr>),
      fetchHead = (\<lambda>p u. None),
      unmodelledURL = (\<lambda>u. None)\<rparr>"

text \<open>
  A site whose pages all link to a page on another host, the name of which begins with
  the text of \<open>ROOT\<close>.
\<close>

definition strayWeb :: Web where
  "strayWeb =
     \<lparr>ROOT = ''https://x.com'',
      goto = (\<lambda>u. loadedIn 120),
      gotoDocument = (\<lambda>u. loadedIn 40),
      pageDom = (\<lambda>u. \<lparr>dom_title = Some ''Page'', dom_metaDescription = None, dom_metaTags = None,
                        dom_images = None, dom_links = Some [''https://x.com.evil.com/p''],
                        dom_events = []\<rparr>),
      fetchHead = (\<lambda>p u. None),
      unmodelledURL = (\<lambda>u. None)\<rparr>"

text \<open>
  A site for the traversal order: the root links to \<^verbatim>\<open>/a\<close> and \<^verbatim>\<open>/b\<close>, \<^verbatim>\<open>/a\<close> links to
  \<^verbatim>\<open>/c\<close> and back to the root, \<^verbatim>\<open>/b\<close> links to \<^verbatim>\<open>/a\<close>, and \<^verbatim>\<open>/c\<close> has no links.
\<close>

definition bfsWeb :: Web where
  "bfsWeb =
     \<lparr>ROOT = ''https://x.com'',
      goto = (\<lambda>u. loadedIn 100),
      gotoDocument = (\<lambda>u. loadedIn 40),
      pageDom = (\<lambda>u.
        \<lparr>dom_title = Some u, dom_metaDescription = None, dom_metaTags = None, dom_images = None,
         dom_links = Some (if u = ''https://x.com'' then [''https://x.com/a'', ''https://x.com/b'']
                           else if u = ''https://x.com/a'' then [''https://x.com/c'', ''https://x.com'']
                           else if u = ''https://x.com/b'' then [''https://x.com/a'']
                           else []),
         dom_events = []\<rparr>),
      fetchHead = (\<lambda>p u. None),
      unmodelledURL = (\<lambda>u. None)\<rparr>"

section \<open>Properties of the URL parser and the normalisers\<close>

lemma takeWhile_append_stop: "\<not> P c \<Longrightarrow> takeWhile P (u @ c # x) = takeWhile P u"
  by (induction u) auto

lemma parseURL_query_fragment:
  "c = CHR ''?'' \<or> c = CHR ''#'' \<Longrightarrow> parseURL (u @ c # x) = parseURL u"
  unfolding parseURL_def by (auto simp: takeWhile_append_stop)

subsection \<open>Characters\<close>

lemma of_char_range: "0 \<le> (of_char c :: int) \<and> (of_char c :: int) < 256"
proof -
  have "(of_char c :: int) mod 256 = of_char c" by simp
  then show ?thesis by (metis pos_mod_sign pos_mod_bound zero_less_numeral)
qed

lemma of_char_toLower:
  "(of_char (toLower c) :: int) = (if 65 \<le> (of_char c :: int) \<and> (of_char c :: int) \<le> 90 then of_char c + 32 else of_char c)"
  by (simp add: toLower_def Let_def)

lemma toLower_idem [simp]: "toLower (toLower c) = toLower c"
  by (rule of_char_eqI [where ?'a = int]) (simp add: of_char_toLower)

lemma toLowerCase_idem [simp]: "toLowerCase (toLowerCase s) = toLowerCase s"
  by (simp add: toLowerCase_def)

lemma toLowerCase_length [simp]: "length (toLowerCase s) = length s"
  by (simp add: toLowerCase_def)

lemma toLowerCase_Nil [simp]: "(toLowerCase s = []) = (s = [])"
  by (simp add: toLowerCase_def)

lemma isAlpha_toLower [simp]: "isAlpha (toLower c) = isAlpha c"
  by (auto simp: isAlpha_def Let_def of_char_toLower)

lemma isDigit_toLower [simp]: "isDigit (toLower c) = isDigit c"
  by (auto simp: isDigit_def Let_def of_char_toLower)

lemma toLower_eq_literal:
  "(toLower c = CHR ''+'') = (c = CHR ''+'')" "(toLower c = CHR ''-'') = (c = CHR ''-'')"
  "(toLower c = CHR ''.'') = (c = CHR ''.'')" "(toLower c = CHR '':'') = (c = CHR '':'')"
  "(toLower c = CHR ''/'') = (c = CHR ''/'')" "(toLower c = CHR ''@'') = (c = CHR ''@'')"
  "(toLower c = CHR 0x5C) = (c = CHR 0x5C)" "(toLower c = CHR ''#'') = (c = CHR ''#'')"
  "(toLower c = CHR ''?'') = (c = CHR ''?'')"
  by (auto simp: of_char_toLower of_char_eq_iff [where ?'a = int, symmetric] simp del: of_char_eq_iff split: if_splits)

lemma schemeChar_toLower [simp]: "schemeChar (toLower c) = schemeChar c"
  by (simp add: schemeChar_def toLower_eq_literal)


lemma schemeChar_plain: "schemeChar c \<Longrightarrow> plainChar c"
  by (auto simp: schemeChar_def plainChar_def isAlpha_def isDigit_def Let_def)

lemma isDigit_plain: "isDigit c \<Longrightarrow> plainChar c"
  by (auto simp: plainChar_def isDigit_def Let_def)

lemma schemeChar_literal [simp]:
  "\<not> schemeChar CHR '':''" "\<not> schemeChar CHR ''/''" "\<not> schemeChar CHR ''#''" "\<not> schemeChar CHR ''?''"
  by (simp_all add: schemeChar_def isAlpha_def isDigit_def)

lemma plainChar_literal [simp]:
  "plainChar CHR ''/''" "plainChar CHR '':''"
  by (simp_all add: plainChar_def)

lemma isDigit_literal [simp]:
  "\<not> isDigit CHR '':''" "\<not> isDigit CHR ''/''" "\<not> isDigit CHR ''@''" "\<not> isDigit CHR 0x5C"
  "\<not> isDigit CHR ''#''" "\<not> isDigit CHR ''?''"
  by (simp_all add: isDigit_def)

subsection \<open>Splitting, joining and stripping\<close>

lemma splitOn_not_Nil [simp]: "splitOn sep s \<noteq> []"
  by (induction s) (auto split: list.splits)

lemma splitOn_snoc: "sep c \<Longrightarrow> splitOn sep (s @ [c]) = splitOn sep s @ [[]]"
  by (induction s) (auto split: list.splits)

lemma splitOn_free: "\<forall>c\<in>set s. \<not> sep c \<Longrightarrow> splitOn sep s = [s]"
  by (induction s) auto

lemma splitOn_append_sep:
  "\<forall>c\<in>set seg. \<not> sep c \<Longrightarrow> sep d \<Longrightarrow> splitOn sep (seg @ d # r) = seg # splitOn sep r"
  by (induction seg) auto


lemma serializePath_append: "serializePath (xs @ ys) = serializePath xs @ serializePath ys"
  by (simp add: serializePath_def)

lemma serializePath_simps [simp]:
  "serializePath [] = []" "serializePath (x # xs) = CHR ''/'' # x @ serializePath xs"
  by (simp_all add: serializePath_def)

text \<open>Splitting a serialised path gives its segments back.\<close>

lemma splitOn_serializePath:
  assumes "segs \<noteq> []" "\<forall>seg\<in>set segs. \<forall>c\<in>set seg. \<not> sep c" "sep CHR ''/''"
  shows "splitOn sep (tl (serializePath segs)) = segs"
  using assms(1,2)
proof (induction segs rule: list_nonempty_induct)
  case (single x)
  then show ?case by (simp add: splitOn_free)
next
  case (cons x xs)
  then have "splitOn sep (tl (serializePath xs)) = xs" by simp
  moreover from cons(1) obtain y ys where "xs = y # ys" by (cases xs) auto
  ultimately show ?case using cons.prems assms(3)
    by (simp add: splitOn_append_sep)
qed

lemma dots_Nil [simp]: "\<not> isDoubleDot []" "\<not> isSingleDot []"
  by (simp_all add: isDoubleDot_def isSingleDot_def toLowerCase_def)


lemma pathSegments_snoc_empty:
  "segs \<noteq> [] \<Longrightarrow>
     pathSegments (segs @ [[]]) acc =
       (if isDoubleDot (last segs) \<or> isSingleDot (last segs) then pathSegments segs acc
        else pathSegments segs acc @ [[]])"
proof (induction segs arbitrary: acc rule: list_nonempty_induct)
  case (single x)
  show ?case by simp
next
  case (cons x xs)
  then show ?case by simp
qed

lemma pathSegments_clean:
  "\<forall>x\<in>set segs. \<not> isDoubleDot x \<and> \<not> isSingleDot x \<Longrightarrow> pathSegments segs acc = acc @ segs"
  by (induction segs arbitrary: acc) auto


lemma stripTrailingSlashes_snoc [simp]:
  "stripTrailingSlashes (s @ ''/'') = stripTrailingSlashes s"
  by (simp add: stripTrailingSlashes_def)

lemma stripTrailingSlashes_Nil [simp]: "stripTrailingSlashes [] = []"
  by (simp add: stripTrailingSlashes_def)




lemma stripTrailingSlashes_prefix: "prefix (stripTrailingSlashes s) s"
  unfolding stripTrailingSlashes_def
  by (metis append_take_drop_id dropWhile_eq_drop prefixI rev_append rev_rev_ident)

subsection \<open>The parser, case by case\<close>

lemma dropWhile_append_nonempty:
  "dropWhile P xs \<noteq> [] \<Longrightarrow> dropWhile P (xs @ ys) = dropWhile P xs @ ys"
  by (induction xs) auto

lemma takeWhile_append_nonempty:
  "dropWhile P xs \<noteq> [] \<Longrightarrow> takeWhile P (xs @ ys) = takeWhile P xs"
  by (induction xs) auto

lemma takeWhile_snoc_stop: "\<not> P c \<Longrightarrow> takeWhile P (xs @ [c]) = takeWhile P xs"
  by (induction xs) auto

lemma dropWhile_snoc_stop: "\<not> P c \<Longrightarrow> dropWhile P (xs @ [c]) = dropWhile P xs @ [c]"
  by (induction xs) auto

lemma isSlash_slash [simp]: "isSlash CHR ''/''"
  by (simp add: isSlash_def)

lemma parseSpecial_eq:
  "parseSpecial scheme dp rest =
     (if prefix ''['' (afterCredentials (takeWhile (\<lambda>c. \<not> isSlash c) (dropWhile isSlash rest)))
      then Unmodelled
      else
        (case parseAuthority (takeWhile (\<lambda>c. \<not> isSlash c) (dropWhile isSlash rest)) of
           None \<Rightarrow> Failure
         | Some (host, port) \<Rightarrow>
             (case hostParse host of
                Failure \<Rightarrow> Failure
              | Unmodelled \<Rightarrow> Unmodelled
              | Success h \<Rightarrow>
                  Success \<lparr>origin = scheme @ ''://'' @ h @
                             (case port of
                                None \<Rightarrow> []
                              | Some p \<Rightarrow> if p = dp then [] else CHR '':'' # showNat p),
                           pathname = serializePath (parsePath isSlash
                              (dropWhile (\<lambda>c. \<not> isSlash c) (dropWhile isSlash rest)))\<rparr>)))"
  unfolding parseSpecial_def Let_def by (rule refl)

text \<open>What a successful parse of a special scheme went through.\<close>

lemma parseSpecial_Success:
  assumes "parseSpecial scheme dp rest = Success p"
  obtains host port h where
    "\<not> prefix ''['' (afterCredentials (takeWhile (\<lambda>c. \<not> isSlash c) (dropWhile isSlash rest)))"
    "parseAuthority (takeWhile (\<lambda>c. \<not> isSlash c) (dropWhile isSlash rest)) = Some (host, port)"
    "hostParse host = Success h"
    "p = \<lparr>origin = scheme @ ''://'' @ h @
             (case port of None \<Rightarrow> [] | Some p \<Rightarrow> if p = dp then [] else CHR '':'' # showNat p),
          pathname = serializePath (parsePath isSlash
             (dropWhile (\<lambda>c. \<not> isSlash c) (dropWhile isSlash rest)))\<rparr>"
proof -
  let ?A = "takeWhile (\<lambda>c. \<not> isSlash c) (dropWhile isSlash rest)"
  from assms have nb: "\<not> prefix ''['' (afterCredentials ?A)"
    unfolding parseSpecial_eq by (cases "prefix ''['' (afterCredentials ?A)") simp_all
  note eq = assms [unfolded parseSpecial_eq if_not_P [OF nb]]
  from eq obtain host port where a: "parseAuthority ?A = Some (host, port)"
    by (cases "parseAuthority ?A") auto
  note eq = eq [unfolded a option.case prod.case]
  from eq obtain h where h: "hostParse host = Success h"
    by (cases "hostParse host") simp_all
  note eq = eq [unfolded h Parse.case]
  from eq have "p = \<lparr>origin = scheme @ ''://'' @ h @
             (case port of None \<Rightarrow> [] | Some p \<Rightarrow> if p = dp then [] else CHR '':'' # showNat p),
          pathname = serializePath (parsePath isSlash
             (dropWhile (\<lambda>c. \<not> isSlash c) (dropWhile isSlash rest)))\<rparr>"
    by simp
  with nb a h show ?thesis by (rule that)
qed

lemma parseSpecial_intro:
  assumes "\<not> prefix ''['' (afterCredentials (takeWhile (\<lambda>c. \<not> isSlash c) (dropWhile isSlash rest)))"
    "parseAuthority (takeWhile (\<lambda>c. \<not> isSlash c) (dropWhile isSlash rest)) = Some (host, port)"
    "hostParse host = Success h"
  shows "parseSpecial scheme dp rest =
     Success \<lparr>origin = scheme @ ''://'' @ h @
             (case port of None \<Rightarrow> [] | Some p \<Rightarrow> if p = dp then [] else CHR '':'' # showNat p),
          pathname = serializePath (parsePath isSlash
             (dropWhile (\<lambda>c. \<not> isSlash c) (dropWhile isSlash rest)))\<rparr>"
  unfolding parseSpecial_eq if_not_P [OF assms(1)] assms(2) option.case prod.case assms(3) Parse.case
  by (rule refl)

lemma hostParse_Nil: "hostParse [] = Failure"
  by (simp add: hostParse_def toLowerCase_def)

lemma parseAuthority_Nil: "parseAuthority [] = Some ([], None)"
  by (simp add: parseAuthority_def afterCredentials_def parsePort_def)

lemma parseSpecial_nonempty:
  assumes "parseSpecial scheme dp rest = Success p"
  shows "dropWhile isSlash rest \<noteq> []"
proof
  assume e: "dropWhile isSlash rest = []"
  from assms obtain host port h where
    "parseAuthority (takeWhile (\<lambda>c. \<not> isSlash c) (dropWhile isSlash rest)) = Some (host, port)"
    "hostParse host = Success h"
    by (rule parseSpecial_Success)
  then show False unfolding e by (simp add: parseAuthority_Nil hostParse_Nil)
qed

subsection \<open>A trailing slash\<close>

lemma parsePath_slash:
  assumes "p = [] \<or> sep (hd p)" "sep CHR ''/''"
  shows "serializePath (parsePath sep (p @ ''/'')) = serializePath (parsePath sep p) \<or>
         serializePath (parsePath sep (p @ ''/'')) = serializePath (parsePath sep p) @ ''/''"
proof (cases p)
  case Nil
  with assms(2) show ?thesis by (simp add: parsePath_def)
next
  case (Cons c cs)
  with assms have c: "sep c" by simp
  have "parsePath sep (p @ ''/'') = pathSegments (splitOn sep cs @ [[]]) []"
    using Cons c assms(2) splitOn_snoc [of sep "CHR ''/''" cs] by (simp add: parsePath_def)
  moreover have "parsePath sep p = pathSegments (splitOn sep cs) []"
    using Cons c by (simp add: parsePath_def)
  ultimately show ?thesis
    using pathSegments_snoc_empty [of "splitOn sep cs" "[]"]
    by (simp add: serializePath_append split: if_splits)
qed

lemma parseSpecial_slash:
  assumes "parseSpecial scheme dp rest = Success p"
  shows "\<exists>p'. parseSpecial scheme dp (rest @ ''/'') = Success p' \<and> origin p' = origin p \<and>
           (pathname p' = pathname p \<or> pathname p' = pathname p @ ''/'')"
proof -
  let ?r = "dropWhile isSlash rest"
  let ?q = "dropWhile (\<lambda>c. \<not> isSlash c) ?r"
  have r: "?r \<noteq> []" using parseSpecial_nonempty [OF assms] .
  have r': "dropWhile isSlash (rest @ ''/'') = ?r @ ''/''"
    using r by (rule dropWhile_append_nonempty)
  have t: "takeWhile (\<lambda>c. \<not> isSlash c) (?r @ ''/'') = takeWhile (\<lambda>c. \<not> isSlash c) ?r"
    by (rule takeWhile_snoc_stop) simp
  have d: "dropWhile (\<lambda>c. \<not> isSlash c) (?r @ ''/'') = ?q @ ''/''"
    by (rule dropWhile_snoc_stop) simp
  have "?q = [] \<or> isSlash (hd ?q)"
    using hd_dropWhile [of "\<lambda>c. \<not> isSlash c" ?r] by auto
  from parsePath_slash [OF this isSlash_slash]
  have pp: "serializePath (parsePath isSlash (?q @ ''/'')) = serializePath (parsePath isSlash ?q) \<or>
            serializePath (parsePath isSlash (?q @ ''/'')) = serializePath (parsePath isSlash ?q) @ ''/''" .
  from assms obtain host port h where
    nb: "\<not> prefix ''['' (afterCredentials (takeWhile (\<lambda>c. \<not> isSlash c) ?r))"
    and a: "parseAuthority (takeWhile (\<lambda>c. \<not> isSlash c) ?r) = Some (host, port)"
    and h: "hostParse host = Success h"
    and p: "p = \<lparr>origin = scheme @ ''://'' @ h @
             (case port of None \<Rightarrow> [] | Some p \<Rightarrow> if p = dp then [] else CHR '':'' # showNat p),
          pathname = serializePath (parsePath isSlash ?q)\<rparr>"
    by (rule parseSpecial_Success)
  have "parseSpecial scheme dp (rest @ ''/'') =
     Success \<lparr>origin = scheme @ ''://'' @ h @
             (case port of None \<Rightarrow> [] | Some p \<Rightarrow> if p = dp then [] else CHR '':'' # showNat p),
          pathname = serializePath (parsePath isSlash
             (dropWhile (\<lambda>c. \<not> isSlash c) (dropWhile isSlash (rest @ ''/''))))\<rparr>"
  proof (rule parseSpecial_intro [OF _ _ h])
    show "\<not> prefix ''['' (afterCredentials (takeWhile (\<lambda>c. \<not> isSlash c) (dropWhile isSlash (rest @ ''/''))))"
      unfolding r' t by (rule nb)
    show "parseAuthority (takeWhile (\<lambda>c. \<not> isSlash c) (dropWhile isSlash (rest @ ''/''))) = Some (host, port)"
      unfolding r' t by (rule a)
  qed
  then have "parseSpecial scheme dp (rest @ ''/'') =
     Success \<lparr>origin = scheme @ ''://'' @ h @
             (case port of None \<Rightarrow> [] | Some p \<Rightarrow> if p = dp then [] else CHR '':'' # showNat p),
          pathname = serializePath (parsePath isSlash (?q @ ''/''))\<rparr>"
    unfolding r' d .
  with p pp show ?thesis by auto
qed


lemma parsePath_slash':
  assumes "q = [] \<or> hd q = CHR ''/''"
  shows "serializePath (parsePath (\<lambda>c. c = CHR ''/'') (q @ ''/'')) =
           serializePath (parsePath (\<lambda>c. c = CHR ''/'') q) \<or>
         serializePath (parsePath (\<lambda>c. c = CHR ''/'') (q @ ''/'')) =
           serializePath (parsePath (\<lambda>c. c = CHR ''/'') q) @ ''/''"
  by (rule parsePath_slash) (use assms in simp_all)

lemma parseNonSpecial_authority:
  "parseNonSpecial (CHR ''/'' # CHR ''/'' # x) =
     (if prefix ''['' (afterCredentials (takeWhile (\<lambda>c. c \<noteq> CHR ''/'') x)) then Unmodelled
      else
        (case parseAuthority (takeWhile (\<lambda>c. c \<noteq> CHR ''/'') x) of
           None \<Rightarrow> Failure
         | Some (host, port) \<Rightarrow>
             if opaqueHostOk host
             then Success \<lparr>origin = ''null'',
                    pathname = (if dropWhile (\<lambda>c. c \<noteq> CHR ''/'') x = [] then []
                       else serializePath (parsePath (\<lambda>c. c = CHR ''/'') (dropWhile (\<lambda>c. c \<noteq> CHR ''/'') x)))\<rparr>
             else Failure))"
  by (simp add: parseNonSpecial_def Let_def)

lemma parseNonSpecial_authority_Success:
  assumes "parseNonSpecial (CHR ''/'' # CHR ''/'' # x) = Success p"
  obtains host port where
    "\<not> prefix ''['' (afterCredentials (takeWhile (\<lambda>c. c \<noteq> CHR ''/'') x))"
    "parseAuthority (takeWhile (\<lambda>c. c \<noteq> CHR ''/'') x) = Some (host, port)"
    "opaqueHostOk host"
    "p = \<lparr>origin = ''null'',
          pathname = (if dropWhile (\<lambda>c. c \<noteq> CHR ''/'') x = [] then []
             else serializePath (parsePath (\<lambda>c. c = CHR ''/'') (dropWhile (\<lambda>c. c \<noteq> CHR ''/'') x)))\<rparr>"
proof -
  let ?A = "takeWhile (\<lambda>c. c \<noteq> CHR ''/'') x"
  from assms have nb: "\<not> prefix ''['' (afterCredentials ?A)"
    unfolding parseNonSpecial_authority by (cases "prefix ''['' (afterCredentials ?A)") simp_all
  note eq = assms [unfolded parseNonSpecial_authority if_not_P [OF nb]]
  from eq obtain host port where a: "parseAuthority ?A = Some (host, port)"
    by (cases "parseAuthority ?A") auto
  note eq = eq [unfolded a option.case prod.case]
  from eq have ok: "opaqueHostOk host" by (cases "opaqueHostOk host") simp_all
  note eq = eq [unfolded if_P [OF ok]]
  from eq have "p = \<lparr>origin = ''null'',
          pathname = (if dropWhile (\<lambda>c. c \<noteq> CHR ''/'') x = [] then []
             else serializePath (parsePath (\<lambda>c. c = CHR ''/'') (dropWhile (\<lambda>c. c \<noteq> CHR ''/'') x)))\<rparr>"
    by simp
  with nb a ok show ?thesis by (rule that)
qed

lemma parseNonSpecial_authority_intro:
  assumes "\<not> prefix ''['' (afterCredentials (takeWhile (\<lambda>c. c \<noteq> CHR ''/'') x))"
    "parseAuthority (takeWhile (\<lambda>c. c \<noteq> CHR ''/'') x) = Some (host, port)"
    "opaqueHostOk host"
  shows "parseNonSpecial (CHR ''/'' # CHR ''/'' # x) =
     Success \<lparr>origin = ''null'',
          pathname = (if dropWhile (\<lambda>c. c \<noteq> CHR ''/'') x = [] then []
             else serializePath (parsePath (\<lambda>c. c = CHR ''/'') (dropWhile (\<lambda>c. c \<noteq> CHR ''/'') x)))\<rparr>"
  unfolding parseNonSpecial_authority if_not_P [OF assms(1)] assms(2) option.case prod.case
    if_P [OF assms(3)]
  by (rule refl)

lemma strip_null_slash:
  "stripTrailingSlashes (''null'' @ x @ ''/'') = stripTrailingSlashes (''null'' @ x)"
  using stripTrailingSlashes_snoc [of "''null'' @ x"] by simp

lemma parseNonSpecial_slash:
  assumes "parseNonSpecial rest = Success p"
  shows "\<exists>p'. parseNonSpecial (rest @ ''/'') = Success p' \<and> origin p' = origin p \<and>
           stripTrailingSlashes (origin p' @ pathname p') = stripTrailingSlashes (origin p @ pathname p)"
proof -
  let ?sl = "\<lambda>c. c = CHR ''/''"
  consider (auth) "prefix ''//'' rest" | (root) "rest = ''/''"
    | (path) "prefix ''/'' rest" "\<not> prefix ''//'' rest" "rest \<noteq> ''/''"
    | (opaque) "\<not> prefix ''/'' rest"
    by blast
  then show ?thesis
  proof cases
    case auth
    then obtain r where rest: "rest = CHR ''/'' # CHR ''/'' # r" by (auto simp: prefix_def)
    let ?q = "dropWhile (\<lambda>c. c \<noteq> CHR ''/'') r"
    let ?a = "takeWhile (\<lambda>c. c \<noteq> CHR ''/'') r"
    have t: "takeWhile (\<lambda>c. c \<noteq> CHR ''/'') (r @ ''/'') = ?a"
      by (rule takeWhile_snoc_stop) simp
    have d: "dropWhile (\<lambda>c. c \<noteq> CHR ''/'') (r @ ''/'') = ?q @ ''/''"
      by (rule dropWhile_snoc_stop) simp
    have "?q = [] \<or> hd ?q = CHR ''/''"
      using hd_dropWhile [of "\<lambda>c. c \<noteq> CHR ''/''" r] by auto
    from parsePath_slash' [OF this]
    have pp: "serializePath (parsePath ?sl (?q @ ''/'')) = serializePath (parsePath ?sl ?q) \<or>
              serializePath (parsePath ?sl (?q @ ''/'')) = serializePath (parsePath ?sl ?q) @ ''/''" .
    have q0: "serializePath (parsePath ?sl ''/'') = ''/''"
      by (simp add: parsePath_def)
    from assms [unfolded rest] obtain host port where
      nb: "\<not> prefix ''['' (afterCredentials ?a)"
      and a: "parseAuthority ?a = Some (host, port)"
      and ok: "opaqueHostOk host"
      and p: "p = \<lparr>origin = ''null'',
                 pathname = (if ?q = [] then [] else serializePath (parsePath ?sl ?q))\<rparr>"
      by (rule parseNonSpecial_authority_Success)
    have "parseNonSpecial (CHR ''/'' # CHR ''/'' # (r @ ''/'')) =
       Success \<lparr>origin = ''null'',
          pathname = (if dropWhile (\<lambda>c. c \<noteq> CHR ''/'') (r @ ''/'') = [] then []
             else serializePath (parsePath ?sl (dropWhile (\<lambda>c. c \<noteq> CHR ''/'') (r @ ''/''))))\<rparr>"
    proof (rule parseNonSpecial_authority_intro [OF _ _ ok])
      show "\<not> prefix ''['' (afterCredentials (takeWhile (\<lambda>c. c \<noteq> CHR ''/'') (r @ ''/'')))"
        unfolding t by (rule nb)
      show "parseAuthority (takeWhile (\<lambda>c. c \<noteq> CHR ''/'') (r @ ''/'')) = Some (host, port)"
        unfolding t by (rule a)
    qed
    then have p': "parseNonSpecial (rest @ ''/'') =
        Success \<lparr>origin = ''null'', pathname = serializePath (parsePath ?sl (?q @ ''/''))\<rparr>"
      unfolding d rest by simp
    show ?thesis
    proof (cases "?q = []")
      case True
      with p p' q0 show ?thesis
        by (simp add: stripTrailingSlashes_def)
    next
      case False
      note p = p [unfolded if_not_P [OF False]]
      from pp show ?thesis
      proof
        assume e: "serializePath (parsePath ?sl (?q @ ''/'')) = serializePath (parsePath ?sl ?q)"
        show ?thesis unfolding p p' e by simp
      next
        assume e: "serializePath (parsePath ?sl (?q @ ''/'')) = serializePath (parsePath ?sl ?q) @ ''/''"
        show ?thesis unfolding p p' e using strip_null_slash by simp
      qed
    qed
  next
    case root
    have "parseNonSpecial ''//'' = Success \<lparr>origin = ''null'', pathname = []\<rparr>"
      by (simp add: parseNonSpecial_def parseAuthority_def afterCredentials_def parsePort_def
          opaqueHostOk_def)
    moreover have "p = \<lparr>origin = ''null'', pathname = ''/''\<rparr>"
      using assms root by (simp add: parseNonSpecial_def parsePath_def)
    ultimately show ?thesis using root by (simp add: stripTrailingSlashes_def)
  next
    case path
    then obtain cs where rest: "rest = CHR ''/'' # cs" by (cases rest) auto
    have n: "\<not> prefix ''//'' (rest @ ''/'')"
      using path rest by (cases cs) auto
    have "rest = [] \<or> hd rest = CHR ''/''" using rest by simp
    from parsePath_slash' [OF this]
    have pp: "serializePath (parsePath ?sl (rest @ ''/'')) = serializePath (parsePath ?sl rest) \<or>
              serializePath (parsePath ?sl (rest @ ''/'')) = serializePath (parsePath ?sl rest) @ ''/''" .
    have p: "p = \<lparr>origin = ''null'', pathname = serializePath (parsePath ?sl rest)\<rparr>"
      using assms path by (simp add: parseNonSpecial_def)
    have p': "parseNonSpecial (rest @ ''/'') =
            Success \<lparr>origin = ''null'', pathname = serializePath (parsePath ?sl (rest @ ''/''))\<rparr>"
      using n rest by (simp add: parseNonSpecial_def)
    from pp show ?thesis
    proof
      assume e: "serializePath (parsePath ?sl (rest @ ''/'')) = serializePath (parsePath ?sl rest)"
      show ?thesis unfolding p p' e by simp
    next
      assume e: "serializePath (parsePath ?sl (rest @ ''/'')) = serializePath (parsePath ?sl rest) @ ''/''"
      show ?thesis unfolding p p' e using strip_null_slash by simp
    qed
  next
    case opaque
    have "\<not> prefix ''//'' rest" using opaque by (cases rest) auto
    then have p: "p = \<lparr>origin = ''null'', pathname = rest\<rparr>"
      using assms opaque by (simp add: parseNonSpecial_def)
    show ?thesis
    proof (cases rest)
      case Nil
      then show ?thesis using p
        by (simp add: parseNonSpecial_def parsePath_def stripTrailingSlashes_def)
    next
      case (Cons c cs)
      with opaque have "c \<noteq> CHR ''/''" by auto
      then have "parseNonSpecial (rest @ ''/'') = Success \<lparr>origin = ''null'', pathname = rest @ ''/''\<rparr>"
        using Cons by (simp add: parseNonSpecial_def)
      then show ?thesis unfolding p using strip_null_slash by simp
    qed
  qed
qed


subsection \<open>Schemes and whole URLs\<close>

lemma parseScheme_Some:
  assumes "parseScheme s = Some (scheme, rest)"
  shows "\<exists>sch. s = sch @ CHR '':'' # rest \<and> sch \<noteq> [] \<and> isAlpha (hd sch) \<and>
           list_all schemeChar sch \<and> scheme = toLowerCase sch"
proof -
  obtain c cs where s: "s = c # cs" using assms by (cases s) (auto simp: parseScheme_def)
  have alpha: "isAlpha c" using assms s by (auto simp: parseScheme_def split: if_splits)
  obtain d dr where d: "dropWhile schemeChar s = d # dr"
    using assms s alpha by (cases "dropWhile schemeChar s") (auto simp: parseScheme_def)
  have d': "d = CHR '':''" "scheme = toLowerCase (takeWhile schemeChar s)" "rest = dr"
    using assms s alpha d by (cases "d = CHR '':''"; simp add: parseScheme_def)+
  have "s = takeWhile schemeChar s @ dropWhile schemeChar s" by simp
  then have "s = takeWhile schemeChar s @ CHR '':'' # rest" using d d' by simp
  moreover have "takeWhile schemeChar s \<noteq> []" "hd (takeWhile schemeChar s) = c"
    using s alpha by (simp_all add: schemeChar_def)
  moreover have "list_all schemeChar (takeWhile schemeChar s)"
    by (simp add: list_all_iff) (meson set_takeWhileD)
  ultimately show ?thesis using alpha d' by blast
qed

lemma parseScheme_intro:
  assumes "sch \<noteq> []" "isAlpha (hd sch)" "list_all schemeChar sch"
  shows "parseScheme (sch @ CHR '':'' # x) = Some (toLowerCase sch, x)"
proof -
  obtain c cs where s: "sch = c # cs" using assms(1) by (cases sch) auto
  have all: "\<And>y. y \<in> set sch \<Longrightarrow> schemeChar y" using assms(3) by (simp add: list_all_iff)
  have t: "takeWhile schemeChar (sch @ CHR '':'' # x) = sch"
    using all by (simp add: takeWhile_append2)
  have d: "dropWhile schemeChar (sch @ CHR '':'' # x) = CHR '':'' # x"
    using all by (simp add: dropWhile_append2)
  have "parseScheme (sch @ CHR '':'' # x) =
    (if \<not> isAlpha c then None
     else (case dropWhile schemeChar (sch @ CHR '':'' # x) of [] \<Rightarrow> None
           | d # rest \<Rightarrow> if d = CHR '':'' then Some (toLowerCase (takeWhile schemeChar (sch @ CHR '':'' # x)), rest) else None))"
    unfolding parseScheme_def s by simp
  then show ?thesis unfolding t d using assms(2) s by simp
qed

lemma parseURL_eq:
  "parseURL input =
     (if \<not> list_all plainChar (takeWhile (\<lambda>c. c \<noteq> CHR ''#'' \<and> c \<noteq> CHR ''?'') input) then Unmodelled
      else (case parseScheme (takeWhile (\<lambda>c. c \<noteq> CHR ''#'' \<and> c \<noteq> CHR ''?'') input) of
              None \<Rightarrow> Failure
            | Some (scheme, rest) \<Rightarrow>
                if scheme = ''file'' \<or> scheme = ''blob'' then Unmodelled
                else (case defaultPort scheme of
                        Some dp \<Rightarrow> parseSpecial scheme dp rest
                      | None \<Rightarrow> parseNonSpecial rest)))"
  unfolding parseURL_def Let_def by (rule refl)

text \<open>What a successful parse went through.\<close>

lemma parseURL_Success:
  assumes "parseURL input = Success p"
  obtains scheme rest where
    "list_all plainChar (takeWhile (\<lambda>c. c \<noteq> CHR ''#'' \<and> c \<noteq> CHR ''?'') input)"
    "parseScheme (takeWhile (\<lambda>c. c \<noteq> CHR ''#'' \<and> c \<noteq> CHR ''?'') input) = Some (scheme, rest)"
    "\<not> (scheme = ''file'' \<or> scheme = ''blob'')"
    "(case defaultPort scheme of Some dp \<Rightarrow> parseSpecial scheme dp rest
      | None \<Rightarrow> parseNonSpecial rest) = Success p"
proof -
  let ?core = "takeWhile (\<lambda>c. c \<noteq> CHR ''#'' \<and> c \<noteq> CHR ''?'') input"
  from assms have plain: "list_all plainChar ?core"
    unfolding parseURL_eq by (cases "list_all plainChar ?core") simp_all
  then have np: "\<not> \<not> list_all plainChar ?core" by simp
  note eq = assms [unfolded parseURL_eq if_not_P [OF np]]
  from eq obtain scheme rest where ps: "parseScheme ?core = Some (scheme, rest)"
    by (cases "parseScheme ?core") auto
  note eq = eq [unfolded ps option.case prod.case]
  from eq have nf: "\<not> (scheme = ''file'' \<or> scheme = ''blob'')"
    by (cases "scheme = ''file'' \<or> scheme = ''blob''") simp_all
  note eq = eq [unfolded if_not_P [OF nf]]
  from plain ps nf eq show ?thesis by (rule that)
qed

lemma parseURL_intro:
  assumes "list_all plainChar (takeWhile (\<lambda>c. c \<noteq> CHR ''#'' \<and> c \<noteq> CHR ''?'') input)"
    "parseScheme (takeWhile (\<lambda>c. c \<noteq> CHR ''#'' \<and> c \<noteq> CHR ''?'') input) = Some (scheme, rest)"
    "\<not> (scheme = ''file'' \<or> scheme = ''blob'')"
  shows "parseURL input = (case defaultPort scheme of Some dp \<Rightarrow> parseSpecial scheme dp rest
      | None \<Rightarrow> parseNonSpecial rest)"
  unfolding parseURL_def Let_def using assms by simp

lemma parseURL_slash:
  assumes "parseURL b = Success p" "\<forall>c\<in>set b. c \<noteq> CHR ''#'' \<and> c \<noteq> CHR ''?''"
  shows "\<exists>p'. parseURL (b @ ''/'') = Success p' \<and>
           stripTrailingSlashes (origin p' @ pathname p') = stripTrailingSlashes (origin p @ pathname p)"
proof -
  let ?stop = "\<lambda>c. c \<noteq> CHR ''#'' \<and> c \<noteq> CHR ''?''"
  have core: "takeWhile ?stop b = b" using assms(2) by (simp add: takeWhile_eq_all_conv)
  have core': "takeWhile ?stop (b @ ''/'') = b @ ''/''"
    using assms(2) by (simp add: takeWhile_eq_all_conv)
  from assms(1) obtain scheme rest where
    plain0: "list_all plainChar (takeWhile ?stop b)"
    and ps0: "parseScheme (takeWhile ?stop b) = Some (scheme, rest)"
    and nf: "\<not> (scheme = ''file'' \<or> scheme = ''blob'')"
    and u: "(case defaultPort scheme of Some dp \<Rightarrow> parseSpecial scheme dp rest
      | None \<Rightarrow> parseNonSpecial rest) = Success p"
    by (rule parseURL_Success)
  note plain = plain0 [unfolded core] and ps = ps0 [unfolded core]
  from plain have plain': "list_all plainChar (b @ ''/'')" by simp
  from parseScheme_Some [OF ps] obtain sch where
    sch: "b = sch @ CHR '':'' # rest" "sch \<noteq> []" "isAlpha (hd sch)" "list_all schemeChar sch"
      "scheme = toLowerCase sch" by blast
  have "parseScheme (sch @ CHR '':'' # (rest @ ''/'')) = Some (toLowerCase sch, rest @ ''/'')"
    using sch(2-4) by (rule parseScheme_intro)
  then have ps': "parseScheme (b @ ''/'') = Some (scheme, rest @ ''/'')"
    using sch(1,5) by simp
  have u': "parseURL (b @ ''/'') =
      (case defaultPort scheme of Some dp \<Rightarrow> parseSpecial scheme dp (rest @ ''/'')
       | None \<Rightarrow> parseNonSpecial (rest @ ''/''))"
    by (rule parseURL_intro) (simp_all only: core' plain' ps' nf not_False_eq_True)
  show ?thesis
  proof (cases "defaultPort scheme")
    case None
    with u have "parseNonSpecial rest = Success p" by simp
    from parseNonSpecial_slash [OF this] show ?thesis using u' None by auto
  next
    case (Some dp)
    with u have "parseSpecial scheme dp rest = Success p" by simp
    from parseSpecial_slash [OF this] obtain p' where
      p': "parseSpecial scheme dp (rest @ ''/'') = Success p'" "origin p' = origin p"
        "pathname p' = pathname p \<or> pathname p' = pathname p @ ''/''" by blast
    from p'(3) have "stripTrailingSlashes (origin p' @ pathname p') =
        stripTrailingSlashes (origin p @ pathname p)"
    proof
      assume "pathname p' = pathname p" with p'(2) show ?thesis by simp
    next
      assume "pathname p' = pathname p @ ''/''"
      then show ?thesis
        using p'(2) stripTrailingSlashes_snoc [of "origin p @ pathname p"] by simp
    qed
    with p'(1) u' Some show ?thesis by simp
  qed
qed

lemma parseURL_append_after_stop:
  assumes "\<not> (\<forall>c\<in>set b. c \<noteq> CHR ''#'' \<and> c \<noteq> CHR ''?'')"
  shows "parseURL (b @ x) = parseURL b"
proof -
  let ?stop = "\<lambda>c. c \<noteq> CHR ''#'' \<and> c \<noteq> CHR ''?''"
  from assms have "dropWhile ?stop b \<noteq> []" by (simp add: dropWhile_eq_Nil_conv)
  then have "takeWhile ?stop (b @ x) = takeWhile ?stop b"
    by (rule takeWhile_append_nonempty)
  then show ?thesis unfolding parseURL_def Let_def by simp
qed

lemma newURL_Success: "parseURL u = Success p \<Longrightarrow> newURL W u = Some p"
  by (simp add: newURL_def)

lemma newURL_Failure: "parseURL u = Failure \<Longrightarrow> newURL W u = None"
  by (simp add: newURL_def)

lemma newURL_cong: "parseURL u = parseURL v \<Longrightarrow> parseURL v \<noteq> Unmodelled \<Longrightarrow> newURL W u = newURL W v"
  by (cases "parseURL v") (simp_all add: newURL_def)

lemma normalizeUrl_slash:
  assumes "parseURL b = Success p"
  shows "\<exists>p'. parseURL (b @ ''/'') = Success p' \<and> normalizeUrl W (b @ ''/'') = normalizeUrl W b"
proof (cases "\<forall>c\<in>set b. c \<noteq> CHR ''#'' \<and> c \<noteq> CHR ''?''")
  case True
  from parseURL_slash [OF assms True] obtain p' where
    p': "parseURL (b @ ''/'') = Success p'"
    "stripTrailingSlashes (origin p' @ pathname p') = stripTrailingSlashes (origin p @ pathname p)"
    by blast
  from p'(2) have "normalizeUrl W (b @ ''/'') = normalizeUrl W b"
    by (simp add: normalizeUrl_def newURL_Success [OF assms] newURL_Success [OF p'(1)])
  with p'(1) show ?thesis by blast
next
  case False
  from parseURL_append_after_stop [OF this] have e: "parseURL (b @ ''/'') = parseURL b" .
  with assms have "normalizeUrl W (b @ ''/'') = normalizeUrl W b"
    by (simp add: normalizeUrl_def newURL_def)
  with e assms show ?thesis by simp
qed

lemma normalizeUrl_slashes:
  assumes "parseURL b = Success p"
  shows "\<exists>p'. parseURL (b @ replicate n CHR ''/'') = Success p' \<and>
         normalizeUrl W (b @ replicate n CHR ''/'') = normalizeUrl W b"
proof (induction n)
  case 0
  from assms show ?case by simp
next
  case (Suc n)
  then obtain p' where p': "parseURL (b @ replicate n CHR ''/'') = Success p'"
    and e: "normalizeUrl W (b @ replicate n CHR ''/'') = normalizeUrl W b" by blast
  from normalizeUrl_slash [OF p', of W] e show ?case
    by (simp add: replicate_append_same)
qed

lemma tail_cases:
  assumes "tail = [] \<or> hd tail = CHR ''?'' \<or> hd tail = CHR ''#''"
  shows "parseURL (b @ tail) = parseURL b"
proof (cases tail)
  case Nil
  then show ?thesis by simp
next
  case (Cons c x)
  with assms have "c = CHR ''?'' \<or> c = CHR ''#''" by simp
  from parseURL_query_fragment [OF this, of b x] Cons show ?thesis by simp
qed

lemma stripTrailingSlashes_replicate:
  "stripTrailingSlashes (s @ replicate n CHR ''/'') = stripTrailingSlashes s"
proof (induction n)
  case 0
  show ?case by simp
next
  case (Suc n)
  have "stripTrailingSlashes (s @ replicate (Suc n) CHR ''/'')
      = stripTrailingSlashes ((s @ replicate n CHR ''/'') @ ''/'')"
    by (simp add: replicate_append_same)
  also have "\<dots> = stripTrailingSlashes (s @ replicate n CHR ''/'')"
    by (rule stripTrailingSlashes_snoc)
  finally show ?case using Suc by simp
qed

text \<open>
  Claim C6.  For a string \<open>b\<close> that \<open>parseURL\<close> parses, appending any number of slashes and
  then nothing, a query or a fragment does not change the page identity, and appending
  nothing, a query or a fragment does not change the image identity: two such strings
  that differ only in the fragment, the query or the slashes at the end have one
  identity.  For any two inputs of the platform's constructor, modelled or not: with
  the same origin and paths that differ only in the slashes at their ends the page
  identities are equal, and with the same origin and path the image identities are
  equal, since the normalisers read nothing else; the query and the fragment are not
  among the properties read.  The two instances of the specification hold.
\<close>

theorem normalisation_invariance:
  "(parseURL b = Success p \<and> (tail = [] \<or> hd tail = CHR ''?'' \<or> hd tail = CHR ''#'') \<longrightarrow>
      normalizeUrl W (b @ replicate n CHR ''/'' @ tail) = normalizeUrl W b
      \<and> normalizeImageUrl W (b @ tail) = normalizeImageUrl W b)
   \<and> (newURL W u = Some p1 \<and> newURL W v = Some p2 \<and> origin p1 = origin p2
        \<and> pathname p1 = q @ replicate i CHR ''/'' \<and> pathname p2 = q @ replicate j CHR ''/'' \<longrightarrow>
      normalizeUrl W u = normalizeUrl W v)
   \<and> (newURL W u = Some p1 \<and> newURL W v = Some p2 \<and> origin p1 = origin p2
        \<and> pathname p1 = pathname p2 \<longrightarrow>
      normalizeImageUrl W u = normalizeImageUrl W v)
   \<and> normalizeUrl W ''https://x.com/a/'' = normalizeUrl W ''https://x.com/a#frag''
   \<and> normalizeImageUrl W ''https://x.com/i.png?v=1'' = normalizeImageUrl W ''https://x.com/i.png?v=2''"
proof (intro conjI impI)
  assume a: "parseURL b = Success p \<and> (tail = [] \<or> hd tail = CHR ''?'' \<or> hd tail = CHR ''#'')"
  then have b: "parseURL b = Success p" and t: "tail = [] \<or> hd tail = CHR ''?'' \<or> hd tail = CHR ''#''"
    by simp_all
  from normalizeUrl_slashes [OF b, of n W] obtain p' where
    p': "parseURL (b @ replicate n CHR ''/'') = Success p'"
    and e: "normalizeUrl W (b @ replicate n CHR ''/'') = normalizeUrl W b" by blast
  from tail_cases [OF t, of "b @ replicate n CHR ''/''"] p'
  have "parseURL (b @ replicate n CHR ''/'' @ tail) = Success p'" by simp
  then have "newURL W (b @ replicate n CHR ''/'' @ tail) = Some p'" by (rule newURL_Success)
  moreover from p' have "newURL W (b @ replicate n CHR ''/'') = Some p'" by (rule newURL_Success)
  ultimately
  have "normalizeUrl W (b @ replicate n CHR ''/'' @ tail) = normalizeUrl W (b @ replicate n CHR ''/'')"
    by (simp add: normalizeUrl_def)
  with e show "normalizeUrl W (b @ replicate n CHR ''/'' @ tail) = normalizeUrl W b" by simp
  from tail_cases [OF t, of b] b have "parseURL (b @ tail) = Success p" by simp
  then have "newURL W (b @ tail) = Some p" by (rule newURL_Success)
  moreover from b have "newURL W b = Some p" by (rule newURL_Success)
  ultimately show "normalizeImageUrl W (b @ tail) = normalizeImageUrl W b"
    by (simp add: normalizeImageUrl_def)
next
  assume "newURL W u = Some p1 \<and> newURL W v = Some p2 \<and> origin p1 = origin p2
        \<and> pathname p1 = q @ replicate i CHR ''/'' \<and> pathname p2 = q @ replicate j CHR ''/''"
  then show "normalizeUrl W u = normalizeUrl W v"
    using stripTrailingSlashes_replicate [of "origin p2 @ q" i]
      stripTrailingSlashes_replicate [of "origin p2 @ q" j]
    by (simp add: normalizeUrl_def)
next
  assume "newURL W u = Some p1 \<and> newURL W v = Some p2 \<and> origin p1 = origin p2
        \<and> pathname p1 = pathname p2"
  then show "normalizeImageUrl W u = normalizeImageUrl W v"
    by (simp add: normalizeImageUrl_def)
next
  show "normalizeUrl W ''https://x.com/a/'' = normalizeUrl W ''https://x.com/a#frag''"
    by code_simp
  show "normalizeImageUrl W ''https://x.com/i.png?v=1'' = normalizeImageUrl W ''https://x.com/i.png?v=2''"
    by code_simp
qed


theorem normalisation_invariance_witness:
  "parseURL ''https://x.com/a'' = Success \<lparr>origin = ''https://x.com'', pathname = ''/a''\<rparr>
   \<and> normalizeUrl siteWeb ''https://x.com/a///?q=1#top'' = ''https://x.com/a''
   \<and> normalizeImageUrl siteWeb ''https://x.com/a?q=1#top'' = ''https://x.com/a''
   \<and> newURL siteWeb ''https://x.com/docs//'' = Some \<lparr>origin = ''https://x.com'', pathname = ''/docs//''\<rparr>
   \<and> newURL siteWeb ''https://x.com/docs'' = Some \<lparr>origin = ''https://x.com'', pathname = ''/docs''\<rparr>
   \<and> normalizeUrl siteWeb ''https://x.com/docs//'' = normalizeUrl siteWeb ''https://x.com/docs''
   \<and> normalizeImageUrl siteWeb ''https://x.com/docs?x'' = normalizeImageUrl siteWeb ''https://x.com/docs''"
proof -
  define b where "b = ''https://x.com/a''"
  define p where "p = \<lparr>origin = ''https://x.com'', pathname = ''/a''\<rparr>"
  define u where "u = ''https://x.com/docs//''"
  define v where "v = ''https://x.com/docs''"
  define w where "w = ''https://x.com/docs?x''"
  define p1 where "p1 = \<lparr>origin = ''https://x.com'', pathname = ''/docs//''\<rparr>"
  define p2 where "p2 = \<lparr>origin = ''https://x.com'', pathname = ''/docs''\<rparr>"
  have pb: "parseURL b = Success p" unfolding b_def p_def by code_simp
  have nb: "normalizeUrl siteWeb b = ''https://x.com/a''" "normalizeImageUrl siteWeb b = ''https://x.com/a''"
    unfolding b_def by code_simp+
  have pu: "newURL siteWeb u = Some p1" unfolding u_def p1_def by code_simp
  have pv: "newURL siteWeb v = Some p2" unfolding v_def p2_def by code_simp
  have pw: "newURL siteWeb w = Some p2" unfolding w_def p2_def by code_simp
  have o: "origin p1 = origin p2" "pathname p1 = ''/docs'' @ replicate 2 CHR ''/''"
    "pathname p2 = ''/docs'' @ replicate 0 CHR ''/''"
    by (simp_all add: p1_def p2_def numeral_2_eq_2)
  have t: "hd ''?q=1#top'' = CHR ''?''" by simp
  from normalisation_invariance [where b = b and p = p and tail = "''?q=1#top''" and n = 3 and W = siteWeb]
    pb t
  have 1: "normalizeUrl siteWeb (b @ replicate 3 CHR ''/'' @ ''?q=1#top'') = normalizeUrl siteWeb b"
    and 2: "normalizeImageUrl siteWeb (b @ ''?q=1#top'') = normalizeImageUrl siteWeb b"
    by blast+
  from normalisation_invariance [where u = u and v = v and ?p1.0 = p1 and ?p2.0 = p2
      and q = "''/docs''" and i = 2 and j = 0 and W = siteWeb] pu pv o
  have 3: "normalizeUrl siteWeb u = normalizeUrl siteWeb v" by blast
  from normalisation_invariance [where u = w and v = v and ?p1.0 = p2 and ?p2.0 = p2 and W = siteWeb]
    pw pv
  have 4: "normalizeImageUrl siteWeb w = normalizeImageUrl siteWeb v" by blast
  from 1 2 nb have 5: "normalizeUrl siteWeb ''https://x.com/a///?q=1#top'' = ''https://x.com/a''"
    "normalizeImageUrl siteWeb ''https://x.com/a?q=1#top'' = ''https://x.com/a''"
    by (simp_all add: b_def numeral_3_eq_3)
  from pb pu pv 3 4 5 show ?thesis
    unfolding b_def p_def u_def v_def w_def p1_def p2_def by simp
qed

subsection \<open>Ports, authorities and hosts\<close>

lemma digitChar_digit:
  assumes "0 \<le> d" "d < 10"
  shows "isDigit (digitChar d)" "digitVal (digitChar d) = d"
proof -
  have "(48 + d) mod 256 = 48 + d" using assms by simp
  then have "(of_char (digitChar d) :: int) = 48 + d" by (simp add: digitChar_def)
  then show "isDigit (digitChar d)" "digitVal (digitChar d) = d"
    using assms by (simp_all add: isDigit_def digitVal_def)
qed

lemma parseNat_snoc: "parseNat (xs @ [c]) = parseNat xs * 10 + digitVal c"
  by (simp add: parseNat_def)

lemma showNat_digits:
  "0 \<le> n \<Longrightarrow> showNat n \<noteq> [] \<and> list_all isDigit (showNat n) \<and> parseNat (showNat n) = n"
proof (induction n rule: showNat.induct)
  case (1 n)
  show ?case
  proof (cases "n < 10")
    case True
    with 1(2) digitChar_digit [of n] show ?thesis
      by (simp add: showNat.simps [of n] parseNat_def)
  next
    case False
    with 1 have ih: "list_all isDigit (showNat (n div 10))" "parseNat (showNat (n div 10)) = n div 10"
      by simp_all
    have "0 \<le> n mod 10" "n mod 10 < 10" by simp_all
    from digitChar_digit [OF this] ih False show ?thesis
      by (simp add: showNat.simps [of n] parseNat_snoc)
  qed
qed




lemma parsePort_showNat:
  "0 \<le> n \<Longrightarrow> n \<le> 65535 \<Longrightarrow> parsePort (CHR '':'' # showNat n) = Some (Some n)"
  using showNat_digits [of n] by (simp add: parsePort_def)

lemma parsePort_Nil: "parsePort [] = Some None"
  by (simp add: parsePort_def)

lemma takeWhile_neq_all: "c \<notin> set h \<Longrightarrow> takeWhile (\<lambda>x. x \<noteq> c) h = h"
  by (induction h) auto

lemma dropWhile_neq_all: "c \<notin> set h \<Longrightarrow> dropWhile (\<lambda>x. x \<noteq> c) h = []"
  by (induction h) auto

lemma takeWhile_neq_stop: "c \<notin> set h \<Longrightarrow> takeWhile (\<lambda>x. x \<noteq> c) (h @ c # r) = h"
  by (induction h) auto

lemma dropWhile_neq_stop: "c \<notin> set h \<Longrightarrow> dropWhile (\<lambda>x. x \<noteq> c) (h @ c # r) = c # r"
  by (induction h) auto


lemma afterCredentials_none:
  assumes "CHR ''@'' \<notin> set a"
  shows "afterCredentials a = a"
proof -
  have "takeWhile (\<lambda>c. c \<noteq> CHR ''@'') (rev a) = rev a"
    by (rule takeWhile_neq_all) (use assms in simp)
  then show ?thesis unfolding afterCredentials_def by (simp only: rev_rev_ident)
qed


lemma parseAuthority_host:
  assumes "h \<noteq> []" "CHR ''@'' \<notin> set h" "CHR '':'' \<notin> set h"
  shows "parseAuthority h = Some (h, None)"
proof -
  have ac: "afterCredentials h = h" using assms(2) by (rule afterCredentials_none)
  have t: "takeWhile (\<lambda>c. c \<noteq> CHR '':'') h = h"
    using assms(3) by (rule takeWhile_neq_all)
  have d: "dropWhile (\<lambda>c. c \<noteq> CHR '':'') h = []"
    using assms(3) by (rule dropWhile_neq_all)
  have "parseAuthority h =
      (if h = [] \<and> (h \<noteq> [] \<or> CHR ''@'' \<in> set h) then None
       else map_option (\<lambda>port. (h, port)) (parsePort []))"
    unfolding parseAuthority_def Let_def ac t d by (rule refl)
  then show ?thesis using assms(1) by (simp add: parsePort_Nil)
qed

lemma isDigit_not_at: "isDigit c \<Longrightarrow> c \<noteq> CHR ''@''"
  by (auto simp: isDigit_literal)

lemma parseAuthority_host_port:
  assumes "h \<noteq> []" "CHR ''@'' \<notin> set h" "CHR '':'' \<notin> set h" "0 \<le> n" "n \<le> 65535"
  shows "parseAuthority (h @ CHR '':'' # showNat n) = Some (h, Some n)"
proof -
  let ?a = "h @ CHR '':'' # showNat n"
  have digits: "list_all isDigit (showNat n)" using showNat_digits [OF assms(4)] by simp
  then have "CHR ''@'' \<notin> set (showNat n)"
    using isDigit_not_at by (auto simp: list_all_iff)
  with assms(2) have "CHR ''@'' \<notin> set ?a" by simp
  then have ac: "afterCredentials ?a = ?a" by (rule afterCredentials_none)
  have t: "takeWhile (\<lambda>c. c \<noteq> CHR '':'') ?a = h"
    using assms(3) by (rule takeWhile_neq_stop)
  have d: "dropWhile (\<lambda>c. c \<noteq> CHR '':'') ?a = CHR '':'' # showNat n"
    using assms(3) by (rule dropWhile_neq_stop)
  have "parseAuthority ?a =
      (if h = [] \<and> (?a \<noteq> [] \<or> CHR ''@'' \<in> set ?a) then None
       else map_option (\<lambda>port. (h, port)) (parsePort (CHR '':'' # showNat n)))"
    unfolding parseAuthority_def Let_def ac t d by (rule refl)
  then show ?thesis
    using assms(1) parsePort_showNat [OF assms(4,5)] by simp
qed

lemma hostParse_eq:
  "hostParse x =
     (if toLowerCase x = [] then Failure
      else if CHR ''%'' \<in> set (toLowerCase x)
              \<or> list_ex (prefix ''xn--'') (splitOn (\<lambda>c. c = CHR ''.'') (toLowerCase x))
      then Unmodelled
      else if list_ex forbiddenDomainChar (toLowerCase x) then Failure
      else if endsInNumber (toLowerCase x)
      then (if canonicalIPv4 (toLowerCase x) then Success (toLowerCase x) else Unmodelled)
      else Success (toLowerCase x))"
  unfolding hostParse_def Let_def by (rule refl)

lemma hostParse_Some:
  assumes "hostParse host = Success h"
  shows "h = toLowerCase host" "hostParse h = Success h" "h \<noteq> []" "\<not> list_ex forbiddenDomainChar h"
proof -
  let ?l = "toLowerCase host"
  from assms have 1: "\<not> ?l = []"
    unfolding hostParse_eq by (cases "?l = []") simp_all
  note eq = assms [unfolded hostParse_eq if_not_P [OF 1]]
  from eq have 2: "\<not> (CHR ''%'' \<in> set ?l \<or> list_ex (prefix ''xn--'') (splitOn (\<lambda>c. c = CHR ''.'') ?l))"
    by (cases "CHR ''%'' \<in> set ?l \<or> list_ex (prefix ''xn--'') (splitOn (\<lambda>c. c = CHR ''.'') ?l)")
      simp_all
  note eq = eq [unfolded if_not_P [OF 2]]
  from eq have 3: "\<not> list_ex forbiddenDomainChar ?l"
    by (cases "list_ex forbiddenDomainChar ?l") simp_all
  note eq = eq [unfolded if_not_P [OF 3]]
  have 4: "h = ?l \<and> (endsInNumber ?l \<longrightarrow> canonicalIPv4 ?l)"
  proof (cases "endsInNumber ?l")
    case True
    note eq = eq [unfolded if_P [OF True]]
    from eq have "canonicalIPv4 ?l" by (cases "canonicalIPv4 ?l") simp_all
    with eq show ?thesis by simp
  next
    case False
    with eq show ?thesis by simp
  qed
  then show h: "h = ?l" by simp
  from 1 3 h show "h \<noteq> []" "\<not> list_ex forbiddenDomainChar h" by simp_all
  have idem: "toLowerCase h = h" using h by simp
  show "hostParse h = Success h"
    unfolding hostParse_eq idem using 1 2 3 4 h by simp
qed

lemma forbidden_literals:
  assumes "\<not> list_ex forbiddenDomainChar h"
  shows "CHR ''/'' \<notin> set h" "CHR '':'' \<notin> set h" "CHR ''@'' \<notin> set h" "CHR 0x5C \<notin> set h"
  using assms by (auto simp: list_ex_iff forbiddenDomainChar_def)

subsection \<open>Parsing a serialised URL again\<close>

lemma dropWhile_hd: "xs \<noteq> [] \<Longrightarrow> \<not> P (hd xs) \<Longrightarrow> dropWhile P xs = xs"
  by (cases xs) auto

lemma takeWhile_split:
  "\<forall>c\<in>set a. P c \<Longrightarrow> b = [] \<or> \<not> P (hd b) \<Longrightarrow> takeWhile P (a @ b) = a"
  by (induction a) (auto simp: takeWhile_eq_Nil_iff)

lemma dropWhile_split:
  "\<forall>c\<in>set a. P c \<Longrightarrow> b = [] \<or> \<not> P (hd b) \<Longrightarrow> dropWhile P (a @ b) = b"
proof (induction a)
  case Nil
  then show ?case by (cases b) auto
next
  case (Cons x a)
  then show ?case by simp
qed

lemma serializePath_chars:
  "c \<in> set (serializePath segs) \<Longrightarrow> c = CHR ''/'' \<or> (\<exists>seg\<in>set segs. c \<in> set seg)"
  by (induction segs) auto

lemma serializePath_hd: "serializePath segs = [] \<or> hd (serializePath segs) = CHR ''/''"
  by (cases segs) auto

lemma parsePath_serializePath:
  assumes "segs \<noteq> []" "\<forall>seg\<in>set segs. \<forall>c\<in>set seg. \<not> isSlash c"
    "\<forall>seg\<in>set segs. \<not> isDoubleDot seg \<and> \<not> isSingleDot seg"
  shows "parsePath isSlash (serializePath segs) = segs"
proof -
  obtain x xs where segs: "segs = x # xs" using assms(1) by (cases segs) auto
  have "\<And>t. parsePath isSlash (CHR ''/'' # t) = pathSegments (splitOn isSlash t) []"
    by (simp add: parsePath_def)
  then have "parsePath isSlash (serializePath segs) =
      pathSegments (splitOn isSlash (tl (serializePath segs))) []"
    unfolding segs by simp
  also have "splitOn isSlash (tl (serializePath segs)) = segs"
    using assms(1,2) isSlash_slash by (rule splitOn_serializePath)
  also have "pathSegments segs [] = [] @ segs" using assms(3) by (rule pathSegments_clean)
  finally show ?thesis by simp
qed

lemma parsePath_Nil: "parsePath isSlash [] = [[]]"
  by (simp add: parsePath_def)


lemma defaultPort_special:
  assumes "defaultPort sch = Some dp"
  shows "sch \<noteq> ''file'' \<and> sch \<noteq> ''blob''"
proof -
  have "defaultPort ''file'' = None" "defaultPort ''blob'' = None"
    by (simp_all add: defaultPort_def)
  with assms show ?thesis by force
qed

text \<open>
  A serialised origin of a special scheme followed by a serialised path without dot
  segments parses to that origin and that path (the root path, when the path is empty).
\<close>

lemma parseURL_serialised:
  assumes sch: "sch \<noteq> []" "isAlpha (hd sch)" "list_all schemeChar sch" "toLowerCase sch = sch"
      "defaultPort sch = Some dp"
    and h: "hostParse h = Success h" "\<forall>c\<in>set h. plainChar c \<and> c \<noteq> CHR ''#'' \<and> c \<noteq> CHR ''?''"
    and ps: "ps = [] \<or> (\<exists>n. ps = CHR '':'' # showNat n \<and> 0 \<le> n \<and> n \<le> 65535 \<and> n \<noteq> dp)"
    and segs: "\<forall>seg\<in>set segs. \<forall>c\<in>set seg. \<not> isSlash c \<and> plainChar c \<and> c \<noteq> CHR ''#'' \<and> c \<noteq> CHR ''?''"
      "\<forall>seg\<in>set segs. \<not> isDoubleDot seg \<and> \<not> isSingleDot seg"
    and org: "org = sch @ ''://'' @ h @ ps"
  shows "parseURL (org @ serializePath segs) =
           Success \<lparr>origin = org, pathname = (if segs = [] then ''/'' else serializePath segs)\<rparr>"
proof -
  let ?P = "serializePath segs"
  let ?stop = "\<lambda>c. c \<noteq> CHR ''#'' \<and> c \<noteq> CHR ''?''"
  define rest where "rest = CHR ''/'' # CHR ''/'' # (h @ ps) @ ?P"
  have u: "org @ ?P = sch @ CHR '':'' # rest" by (simp add: org rest_def)
  note hs = hostParse_Some [OF h(1)]
  note hf = forbidden_literals [OF hs(4)]
  have good_sch: "\<forall>c\<in>set sch. plainChar c \<and> ?stop c"
  proof
    fix c assume "c \<in> set sch"
    with sch(3) have "schemeChar c" by (simp add: list_all_iff)
    then show "plainChar c \<and> ?stop c" using schemeChar_plain schemeChar_literal by blast
  qed
  have digits: "\<And>n c. 0 \<le> n \<Longrightarrow> c \<in> set (showNat n) \<Longrightarrow> isDigit c"
    using showNat_digits by (simp add: list_all_iff)
  have good_ps: "\<forall>c\<in>set ps. plainChar c \<and> ?stop c \<and> \<not> isSlash c \<and> c \<noteq> CHR ''@''"
  proof
    fix c assume c: "c \<in> set ps"
    with ps obtain n where n: "ps = CHR '':'' # showNat n" "0 \<le> n" by auto
    with c have "c = CHR '':'' \<or> isDigit c" using digits by auto
    then show "plainChar c \<and> ?stop c \<and> \<not> isSlash c \<and> c \<noteq> CHR ''@''"
    proof
      assume "c = CHR '':''" then show ?thesis by (simp add: isSlash_def)
    next
      assume d: "isDigit c"
      then have "plainChar c" by (rule isDigit_plain)
      moreover from d isDigit_literal have "c \<noteq> CHR ''#''" "c \<noteq> CHR ''?''" "c \<noteq> CHR ''/''"
        "c \<noteq> CHR 0x5C" "c \<noteq> CHR ''@''" by blast+
      ultimately show ?thesis by (simp add: isSlash_def)
    qed
  qed
  have good_P: "\<forall>c\<in>set ?P. plainChar c \<and> ?stop c"
  proof
    fix c assume "c \<in> set ?P"
    from serializePath_chars [OF this]
    consider "c = CHR ''/''" | seg where "seg \<in> set segs" "c \<in> set seg" by blast
    then show "plainChar c \<and> ?stop c"
    proof cases
      case 1
      then show ?thesis by simp
    next
      case 2
      from segs(1) [rule_format, OF 2] show ?thesis by simp
    qed
  qed
  define G where "G = (\<lambda>c. plainChar c \<and> c \<noteq> CHR ''#'' \<and> c \<noteq> CHR ''?'')"
  have G: "G CHR ''/''" "G CHR '':''" by (simp_all add: G_def)
  have Gs: "\<forall>c\<in>set sch. G c" "\<forall>c\<in>set h. G c" "\<forall>c\<in>set ps. G c" "\<forall>c\<in>set ?P. G c"
    unfolding G_def using good_sch h(2) good_ps good_P by blast+
  have good: "\<forall>c\<in>set (sch @ CHR '':'' # rest). G c"
    unfolding rest_def using G Gs by (simp add: ball_Un)
  have core: "takeWhile ?stop (sch @ CHR '':'' # rest) = sch @ CHR '':'' # rest"
  proof (rule takeWhile_eq_all_conv [THEN iffD2], rule ballI)
    fix c assume "c \<in> set (sch @ CHR '':'' # rest)"
    with good have "G c" by (rule bspec)
    then show "?stop c" by (simp add: G_def)
  qed
  have plain: "list_all plainChar (sch @ CHR '':'' # rest)"
    unfolding list_all_iff
  proof
    fix c assume "c \<in> set (sch @ CHR '':'' # rest)"
    with good have "G c" by (rule bspec)
    then show "plainChar c" by (simp add: G_def)
  qed
  have scheme: "parseScheme (sch @ CHR '':'' # rest) = Some (sch, rest)"
    using parseScheme_intro [OF sch(1-3), of rest] sch(4) by simp
  from defaultPort_special [OF sch(5)] have nf: "\<not> (sch = ''file'' \<or> sch = ''blob'')" by blast
  have "parseURL (sch @ CHR '':'' # rest) =
      (case defaultPort sch of Some dp \<Rightarrow> parseSpecial sch dp rest | None \<Rightarrow> parseNonSpecial rest)"
  proof (rule parseURL_intro [OF _ _ nf])
    show "list_all plainChar (takeWhile ?stop (sch @ CHR '':'' # rest))"
      unfolding core by (rule plain)
    show "parseScheme (takeWhile ?stop (sch @ CHR '':'' # rest)) = Some (sch, rest)"
      unfolding core by (rule scheme)
  qed
  then have 1: "parseURL (sch @ CHR '':'' # rest) = parseSpecial sch dp rest"
    unfolding sch(5) by simp
  have hnot: "\<not> isSlash (hd h)"
    using hd_in_set [OF hs(3)] hf(1,4) unfolding isSlash_def by metis
  have "dropWhile isSlash rest = dropWhile isSlash ((h @ ps) @ ?P)"
    by (simp add: rest_def)
  also have "\<dots> = (h @ ps) @ ?P"
    using hs(3) hnot by (intro dropWhile_hd) simp_all
  finally have r: "dropWhile isSlash rest = (h @ ps) @ ?P" .
  have noslash: "\<forall>c\<in>set (h @ ps). \<not> isSlash c"
    using hf(1,4) good_ps by (auto simp: isSlash_def)
  have Phd: "?P = [] \<or> \<not> \<not> isSlash (hd ?P)"
    using serializePath_hd [of segs] by auto
  have t: "takeWhile (\<lambda>c. \<not> isSlash c) ((h @ ps) @ ?P) = h @ ps"
    using noslash Phd by (rule takeWhile_split)
  have d: "dropWhile (\<lambda>c. \<not> isSlash c) ((h @ ps) @ ?P) = ?P"
    using noslash Phd by (rule dropWhile_split)
  define port where "port = (if ps = [] then None else Some (parseNat (tl ps)))"
  have a: "parseAuthority (h @ ps) = Some (h, port)"
  proof (cases "ps = []")
    case True
    then show ?thesis using parseAuthority_host [OF hs(3) hf(3) hf(2)] by (simp add: port_def)
  next
    case False
    with ps obtain n where n: "ps = CHR '':'' # showNat n" "0 \<le> n" "n \<le> 65535" by auto
    have "parseNat (tl ps) = n" using n(1) showNat_digits [OF n(2)] by simp
    then show ?thesis
      using parseAuthority_host_port [OF hs(3) hf(3) hf(2) n(2,3)] n(1) by (simp add: port_def)
  qed
  have noat: "CHR ''@'' \<notin> set (h @ ps)" using hf(3) good_ps by auto
  have hb: "hd h \<noteq> CHR ''[''"
  proof
    assume "hd h = CHR ''[''"
    with hd_in_set [OF hs(3)] have "CHR ''['' \<in> set h" by simp
    with hs(4) show False by (auto simp: list_ex_iff forbiddenDomainChar_def)
  qed
  have nb: "\<not> prefix ''['' (afterCredentials (h @ ps))"
    unfolding afterCredentials_none [OF noat] using hs(3) hb by (cases h) auto
  have pstr: "(case port of None \<Rightarrow> [] | Some p \<Rightarrow> if p = dp then [] else CHR '':'' # showNat p) = ps"
  proof (cases "ps = []")
    case True
    then show ?thesis by (simp add: port_def)
  next
    case False
    with ps obtain n where n: "ps = CHR '':'' # showNat n" "0 \<le> n" "n \<noteq> dp" by auto
    have "parseNat (tl ps) = n" using n(1) showNat_digits [OF n(2)] by simp
    then show ?thesis using n by (simp add: port_def)
  qed
  have pp: "serializePath (parsePath isSlash ?P) = (if segs = [] then ''/'' else ?P)"
  proof (cases "segs = []")
    case True
    then show ?thesis by (simp add: parsePath_Nil)
  next
    case False
    have "parsePath isSlash ?P = segs"
      using False segs by (intro parsePath_serializePath) blast+
    with False show ?thesis by simp
  qed
  have "parseSpecial sch dp rest =
     Success \<lparr>origin = sch @ ''://'' @ h @
             (case port of None \<Rightarrow> [] | Some p \<Rightarrow> if p = dp then [] else CHR '':'' # showNat p),
          pathname = serializePath (parsePath isSlash
             (dropWhile (\<lambda>c. \<not> isSlash c) (dropWhile isSlash rest)))\<rparr>"
  proof (rule parseSpecial_intro [OF _ _ h(1)])
    show "\<not> prefix ''['' (afterCredentials (takeWhile (\<lambda>c. \<not> isSlash c) (dropWhile isSlash rest)))"
      unfolding r t by (rule nb)
    show "parseAuthority (takeWhile (\<lambda>c. \<not> isSlash c) (dropWhile isSlash rest)) = Some (h, port)"
      unfolding r t by (rule a)
  qed
  then have 2: "parseSpecial sch dp rest =
     Success \<lparr>origin = org, pathname = (if segs = [] then ''/'' else ?P)\<rparr>"
    unfolding r d pstr pp org .
  have "parseURL (org @ ?P) = parseURL (sch @ CHR '':'' # rest)" by (simp only: u)
  also note 1
  also note 2
  finally show ?thesis .
qed













lemma special_scheme:
  assumes "defaultPort sch = Some dp"
  shows "sch \<noteq> []" "isAlpha (hd sch)" "list_all schemeChar sch" "toLowerCase sch = sch"
proof -
  define P where "P = (\<lambda>s. s \<noteq> [] \<and> isAlpha (hd s) \<and> list_all schemeChar s \<and> toLowerCase s = s)"
  have lit: "P ''http''" "P ''https''" "P ''ws''" "P ''wss''" "P ''ftp''"
    unfolding P_def by code_simp+
  have "sch = ''http'' \<or> sch = ''https'' \<or> sch = ''ws'' \<or> sch = ''wss'' \<or> sch = ''ftp''"
    using assms unfolding defaultPort_def by (meson option.distinct(1))
  with lit have "P sch" by blast
  then show "sch \<noteq> []" "isAlpha (hd sch)" "list_all schemeChar sch" "toLowerCase sch = sch"
    unfolding P_def by blast+
qed

lemma no_extension_root:
  "\<not> list_ex (\<lambda>ext. suffix ext (toLowerCase ''/'')) DOCUMENT_EXTENSIONS"
  "\<not> list_ex (\<lambda>ext. suffix ext (toLowerCase [])) DOCUMENT_EXTENSIONS"
  by code_simp+

lemma isDocumentUrl_written:
  assumes sch: "defaultPort sch = Some dp"
    and h: "hostParse h = Success h" "list_all (\<lambda>c. plainChar c \<and> c \<noteq> CHR ''#'' \<and> c \<noteq> CHR ''?'') h"
    and ps: "ps = [] \<or> (\<exists>n. ps = CHR '':'' # showNat n \<and> 0 \<le> n \<and> n \<le> 65535 \<and> n \<noteq> dp)"
    and segs: "list_all (\<lambda>seg. list_all (\<lambda>c. \<not> isSlash c \<and> plainChar c \<and> c \<noteq> CHR ''#'' \<and> c \<noteq> CHR ''?'') seg
                  \<and> \<not> isDoubleDot seg \<and> \<not> isSingleDot seg) segs"
    and tail: "tail = [] \<or> hd tail = CHR ''?'' \<or> hd tail = CHR ''#''"
  shows "isDocumentUrl W (sch @ ''://'' @ h @ ps @ serializePath segs @ tail)
     \<longleftrightarrow> list_ex (\<lambda>ext. suffix ext (toLowerCase (serializePath segs))) DOCUMENT_EXTENSIONS"
proof -
  define org where "org = sch @ ''://'' @ h @ ps"
  from h(2) have h2: "\<forall>c\<in>set h. plainChar c \<and> c \<noteq> CHR ''#'' \<and> c \<noteq> CHR ''?''"
    by (simp add: list_all_iff)
  from segs have s1: "\<forall>seg\<in>set segs. \<forall>c\<in>set seg. \<not> isSlash c \<and> plainChar c \<and> c \<noteq> CHR ''#'' \<and> c \<noteq> CHR ''?''"
    and s2: "\<forall>seg\<in>set segs. \<not> isDoubleDot seg \<and> \<not> isSingleDot seg"
    unfolding list_all_iff by blast+
  from parseURL_serialised [OF special_scheme [OF sch] sch h(1) h2 ps s1 s2 org_def]
  have p: "parseURL (org @ serializePath segs) =
      Success \<lparr>origin = org, pathname = (if segs = [] then ''/'' else serializePath segs)\<rparr>" .
  from tail_cases [OF tail, of "org @ serializePath segs"] p
  have "parseURL ((org @ serializePath segs) @ tail) =
      Success \<lparr>origin = org, pathname = (if segs = [] then ''/'' else serializePath segs)\<rparr>"
    by simp
  from newURL_Success [OF this, of W]
  have "isDocumentUrl W ((org @ serializePath segs) @ tail) \<longleftrightarrow>
      list_ex (\<lambda>ext. suffix ext (toLowerCase (if segs = [] then ''/'' else serializePath segs)))
        DOCUMENT_EXTENSIONS"
    by (simp add: isDocumentUrl_def)
  also have "\<dots> \<longleftrightarrow> list_ex (\<lambda>ext. suffix ext (toLowerCase (serializePath segs))) DOCUMENT_EXTENSIONS"
  proof (cases "segs = []")
    case True
    with no_extension_root show ?thesis by simp
  next
    case False
    then show ?thesis by simp
  qed
  finally show ?thesis by (simp add: org_def)
qed

text \<open>
  Claim C8.  \<open>isDocumentUrl W u\<close> is true exactly when the constructor returns a URL for
  \<open>u\<close> and its lowercased path ends with one of the 23 extensions of
  \<open>DOCUMENT_EXTENSIONS\<close> (each with its leading dot, as the source lists them); where
  the constructor throws, in particular where the standard's parser fails, the answer
  is false.  For a string \<open>b\<close> that \<open>parseURL\<close> parses, appending a query or a fragment
  changes neither the parsed URL nor the answer, which is decided by the path of \<open>b\<close>.
  For a URL written as a special scheme, a host the host parser returns unchanged, a
  port that is absent or not the default one, a path of segments without dot segments,
  and then nothing, a query or a fragment, the answer is decided by the path as it is
  written: an extension in the host or in the query does not count.  The three examples
  of the specification evaluate as it says.
\<close>

theorem isDocumentUrl_spec:
  "(isDocumentUrl W u \<longleftrightarrow>
      (\<exists>q ext. newURL W u = Some q
         \<and> ext \<in> set [''.pdf'', ''.doc'', ''.docx'', ''.xls'', ''.xlsx'', ''.ppt'', ''.pptx'',
                       ''.jpg'', ''.jpeg'', ''.png'', ''.gif'', ''.bmp'', ''.svg'', ''.webp'',
                       ''.mp4'', ''.avi'', ''.mov'', ''.wmv'', ''.zip'', ''.rar'', ''.7z'',
                       ''.txt'', ''.rtf'']
         \<and> suffix ext (toLowerCase (pathname q))))
   \<and> (newURL W u = None \<or> parseURL u = Failure \<longrightarrow> \<not> isDocumentUrl W u)
   \<and> (parseURL b = Success p \<and> (tail = [] \<or> hd tail = CHR ''?'' \<or> hd tail = CHR ''#'') \<longrightarrow>
        newURL W (b @ tail) = Some p
        \<and> (isDocumentUrl W (b @ tail)
             \<longleftrightarrow> list_ex (\<lambda>ext. suffix ext (toLowerCase (pathname p))) DOCUMENT_EXTENSIONS))
   \<and> (defaultPort sch = Some dp
        \<and> hostParse h = Success h
        \<and> list_all (\<lambda>c. plainChar c \<and> c \<noteq> CHR ''#'' \<and> c \<noteq> CHR ''?'') h
        \<and> (ps = [] \<or> (\<exists>n. ps = CHR '':'' # showNat n \<and> 0 \<le> n \<and> n \<le> 65535 \<and> n \<noteq> dp))
        \<and> list_all (\<lambda>seg. list_all (\<lambda>c. \<not> isSlash c \<and> plainChar c \<and> c \<noteq> CHR ''#'' \<and> c \<noteq> CHR ''?'') seg
                       \<and> \<not> isDoubleDot seg \<and> \<not> isSingleDot seg) segs
        \<and> (tail = [] \<or> hd tail = CHR ''?'' \<or> hd tail = CHR ''#'') \<longrightarrow>
        (isDocumentUrl W (sch @ ''://'' @ h @ ps @ serializePath segs @ tail)
           \<longleftrightarrow> list_ex (\<lambda>ext. suffix ext (toLowerCase (serializePath segs))) DOCUMENT_EXTENSIONS))
   \<and> isDocumentUrl W ''https://x.com/doc.PDF''
   \<and> \<not> isDocumentUrl W ''https://x.com/page''
   \<and> isDocumentUrl W ''https://x.com/img.png?x=1''"
proof (intro conjI)
  show "isDocumentUrl W u \<longleftrightarrow>
      (\<exists>q ext. newURL W u = Some q
         \<and> ext \<in> set [''.pdf'', ''.doc'', ''.docx'', ''.xls'', ''.xlsx'', ''.ppt'', ''.pptx'',
                       ''.jpg'', ''.jpeg'', ''.png'', ''.gif'', ''.bmp'', ''.svg'', ''.webp'',
                       ''.mp4'', ''.avi'', ''.mov'', ''.wmv'', ''.zip'', ''.rar'', ''.7z'',
                       ''.txt'', ''.rtf'']
         \<and> suffix ext (toLowerCase (pathname q)))"
    unfolding isDocumentUrl_def DOCUMENT_EXTENSIONS_def list_ex_iff
    by (cases "newURL W u") auto
  show "newURL W u = None \<or> parseURL u = Failure \<longrightarrow> \<not> isDocumentUrl W u"
    by (auto simp: isDocumentUrl_def newURL_Failure)
  show "parseURL b = Success p \<and> (tail = [] \<or> hd tail = CHR ''?'' \<or> hd tail = CHR ''#'') \<longrightarrow>
        newURL W (b @ tail) = Some p
        \<and> (isDocumentUrl W (b @ tail)
             \<longleftrightarrow> list_ex (\<lambda>ext. suffix ext (toLowerCase (pathname p))) DOCUMENT_EXTENSIONS)"
  proof
    assume a: "parseURL b = Success p \<and> (tail = [] \<or> hd tail = CHR ''?'' \<or> hd tail = CHR ''#'')"
    then have t: "tail = [] \<or> hd tail = CHR ''?'' \<or> hd tail = CHR ''#''" by simp
    from tail_cases [OF t, of b] a have "parseURL (b @ tail) = Success p" by simp
    then have n: "newURL W (b @ tail) = Some p" by (rule newURL_Success)
    then show "newURL W (b @ tail) = Some p
        \<and> (isDocumentUrl W (b @ tail)
             \<longleftrightarrow> list_ex (\<lambda>ext. suffix ext (toLowerCase (pathname p))) DOCUMENT_EXTENSIONS)"
      by (simp add: isDocumentUrl_def)
  qed
  show "defaultPort sch = Some dp
        \<and> hostParse h = Success h
        \<and> list_all (\<lambda>c. plainChar c \<and> c \<noteq> CHR ''#'' \<and> c \<noteq> CHR ''?'') h
        \<and> (ps = [] \<or> (\<exists>n. ps = CHR '':'' # showNat n \<and> 0 \<le> n \<and> n \<le> 65535 \<and> n \<noteq> dp))
        \<and> list_all (\<lambda>seg. list_all (\<lambda>c. \<not> isSlash c \<and> plainChar c \<and> c \<noteq> CHR ''#'' \<and> c \<noteq> CHR ''?'') seg
                       \<and> \<not> isDoubleDot seg \<and> \<not> isSingleDot seg) segs
        \<and> (tail = [] \<or> hd tail = CHR ''?'' \<or> hd tail = CHR ''#'') \<longrightarrow>
        (isDocumentUrl W (sch @ ''://'' @ h @ ps @ serializePath segs @ tail)
           \<longleftrightarrow> list_ex (\<lambda>ext. suffix ext (toLowerCase (serializePath segs))) DOCUMENT_EXTENSIONS)"
    using isDocumentUrl_written [of sch dp h ps segs tail W] by blast
  show "isDocumentUrl W ''https://x.com/doc.PDF''" by code_simp
  show "\<not> isDocumentUrl W ''https://x.com/page''" by code_simp
  show "isDocumentUrl W ''https://x.com/img.png?x=1''" by code_simp
qed


theorem isDocumentUrl_spec_witness:
  "parseURL ''/doc.pdf'' = Failure \<and> \<not> isDocumentUrl siteWeb ''/doc.pdf''
   \<and> parseURL ''https://x.com/a.zip'' = Success \<lparr>origin = ''https://x.com'', pathname = ''/a.zip''\<rparr>
   \<and> isDocumentUrl siteWeb ''https://x.com/a.zip#top''
   \<and> isDocumentUrl siteWeb ''https://x.com:8443/files/Report.PDF?download=1''
   \<and> \<not> isDocumentUrl siteWeb ''https://x.com/page?f=a.pdf''"
proof -
  define bad where "bad = ''/doc.pdf''"
  define b where "b = ''https://x.com/a.zip''"
  define p where "p = \<lparr>origin = ''https://x.com'', pathname = ''/a.zip''\<rparr>"
  define sch where "sch = ''https''"
  define h where "h = ''x.com''"
  define segs where "segs = [''files'', ''Report.PDF'']"
  define segs' where "segs' = [''page'']"
  define good where "good = (\<lambda>seg. list_all (\<lambda>c. \<not> isSlash c \<and> plainChar c \<and> c \<noteq> CHR ''#'' \<and> c \<noteq> CHR ''?'') seg
                       \<and> \<not> isDoubleDot seg \<and> \<not> isSingleDot seg)"
  have fb: "parseURL bad = Failure" unfolding bad_def by code_simp
  have pb: "parseURL b = Success p" unfolding b_def p_def by code_simp
  have zip: "list_ex (\<lambda>ext. suffix ext (toLowerCase (pathname p))) DOCUMENT_EXTENSIONS"
    unfolding p_def by code_simp
  have dp: "defaultPort sch = Some 443" unfolding sch_def by code_simp
  have hp: "hostParse h = Success h" unfolding h_def by code_simp
  have hc: "list_all (\<lambda>c. plainChar c \<and> c \<noteq> CHR ''#'' \<and> c \<noteq> CHR ''?'') h"
    unfolding h_def by code_simp
  have port: "showNat 8443 = ''8443''" by code_simp
  have sg: "list_all good segs" "list_all good segs'"
    unfolding segs_def segs'_def good_def by code_simp+
  have pdf: "list_ex (\<lambda>ext. suffix ext (toLowerCase (serializePath segs))) DOCUMENT_EXTENSIONS"
    unfolding segs_def by code_simp
  have npdf: "\<not> list_ex (\<lambda>ext. suffix ext (toLowerCase (serializePath segs'))) DOCUMENT_EXTENSIONS"
    unfolding segs'_def by code_simp
  have sp: "serializePath segs = ''/files/Report.PDF''" "serializePath segs' = ''/page''"
    by (simp_all add: segs_def segs'_def serializePath_def)
  have t0: "hd ''#top'' = CHR ''#''" and t1: "hd ''?download=1'' = CHR ''?''"
    and t2: "hd ''?f=a.pdf'' = CHR ''?''" by simp_all
  have p1: "CHR '':'' # ''8443'' = CHR '':'' # showNat 8443 \<and> (0::int) \<le> 8443 \<and> (8443::int) \<le> 65535
      \<and> (8443::int) \<noteq> 443"
    by (simp add: port)
  note A = isDocumentUrl_spec [where W = siteWeb and u = bad, THEN conjunct2, THEN conjunct1]
  from A fb have 1: "\<not> isDocumentUrl siteWeb bad" by blast
  note B = isDocumentUrl_spec [where W = siteWeb and b = b and p = p and tail = "''#top''",
      THEN conjunct2, THEN conjunct2, THEN conjunct1]
  from B pb t0 zip have 2: "isDocumentUrl siteWeb (b @ ''#top'')" by blast
  note C = isDocumentUrl_spec [where W = siteWeb and sch = sch and dp = 443 and h = h
      and ps = "CHR '':'' # ''8443''" and segs = segs and tail = "''?download=1''",
      THEN conjunct2, THEN conjunct2, THEN conjunct2, THEN conjunct1]
  from C dp hp hc p1 sg(1) [unfolded good_def] t1 pdf
  have 3: "isDocumentUrl siteWeb (sch @ ''://'' @ h @ (CHR '':'' # ''8443'') @ serializePath segs @ ''?download=1'')"
    by blast
  note D = isDocumentUrl_spec [where W = siteWeb and sch = sch and dp = 443 and h = h
      and ps = "[]" and segs = segs' and tail = "''?f=a.pdf''",
      THEN conjunct2, THEN conjunct2, THEN conjunct2, THEN conjunct1]
  from D dp hp hc sg(2) [unfolded good_def] t2 npdf
  have 4: "\<not> isDocumentUrl siteWeb (sch @ ''://'' @ h @ [] @ serializePath segs' @ ''?f=a.pdf'')"
    by blast
  from fb pb 1 2 3 4 show ?thesis
    unfolding bad_def b_def p_def sch_def h_def sp by simp
qed

section \<open>The crawl loop, step by step\<close>

lemma handleEvent_fields [simp]:
  "url (handleEvent e r) = url r"
  "title (handleEvent e r) = title r"
  "metaDescription (handleEvent e r) = metaDescription r"
  "brokenImages (handleEvent e r) = brokenImages r"
  "allImages (handleEvent e r) = allImages r"
  "imagesAnalysis (handleEvent e r) = imagesAnalysis r"
  "links (handleEvent e r) = links r"
  "statusCode (handleEvent e r) = statusCode r"
  "loadTime (handleEvent e r) = loadTime r"
  "metaTags (handleEvent e r) = metaTags r"
  "isDocument (handleEvent e r) = isDocument r"
  "documentType (handleEvent e r) = documentType r"
  "documentStatus (handleEvent e r) = documentStatus r"
  "documentLinks (handleEvent e r) = documentLinks r"
  by (cases e; simp)+

lemma handleEvent_jsErrors: "set (jsErrors r) \<subseteq> set (jsErrors (handleEvent e r))"
  by (cases e) auto

lemma handleEvent_listening [simp]: "(benignErrors (handleEvent e r) = None) = (benignErrors r = None)"
  by (cases e) (auto simp: push_def)

lemma deliver_fields [simp]:
  "url (deliver evs r) = url r"
  "title (deliver evs r) = title r"
  "metaDescription (deliver evs r) = metaDescription r"
  "brokenImages (deliver evs r) = brokenImages r"
  "allImages (deliver evs r) = allImages r"
  "imagesAnalysis (deliver evs r) = imagesAnalysis r"
  "links (deliver evs r) = links r"
  "statusCode (deliver evs r) = statusCode r"
  "loadTime (deliver evs r) = loadTime r"
  "metaTags (deliver evs r) = metaTags r"
  "isDocument (deliver evs r) = isDocument r"
  "documentType (deliver evs r) = documentType r"
  "documentStatus (deliver evs r) = documentStatus r"
  "documentLinks (deliver evs r) = documentLinks r"
  unfolding deliver_def by (induction evs arbitrary: r; simp)+

lemma deliver_jsErrors: "set (jsErrors r) \<subseteq> set (jsErrors (deliver evs r))"
  unfolding deliver_def
proof (induction evs arbitrary: r)
  case Nil
  show ?case by simp
next
  case (Cons e evs)
  have "set (jsErrors r) \<subseteq> set (jsErrors (handleEvent e r))" by (rule handleEvent_jsErrors)
  also have "\<dots> \<subseteq> set (jsErrors (foldl (\<lambda>r e. handleEvent e r) (handleEvent e r) evs))"
    by (rule Cons.IH)
  finally show ?case by simp
qed

lemma deliver_listening [simp]: "(benignErrors (deliver evs r) = None) = (benignErrors r = None)"
  unfolding deliver_def by (induction evs arbitrary: r) simp_all

text \<open>The part of a result that no listener writes.\<close>

lemma dispatch_length [simp]: "length (dispatch evs rs) = length rs"
  by (simp add: dispatch_def)

lemma dispatch_map_url [simp]: "map url (dispatch evs rs) = map url rs"
  by (simp add: dispatch_def)

lemma dispatch_mem: "r' \<in> set (dispatch evs rs) \<Longrightarrow> \<exists>r\<in>set rs. r' = r \<or> r' = deliver evs r"
  by (auto simp: dispatch_def)

lemma checkImageExists_frame:
  "checkImageExists W p u s = (ex, s') \<Longrightarrow>
     visited s' = visited s \<and> queue s' = queue s \<and> results s' = results s"
  unfolding checkImageExists_def
  by (auto simp: Let_def split: option.splits)

lemma verifyImage_frame:
  "verifyImage W p i a s = (i', a', s') \<Longrightarrow>
     visited s' = visited s \<and> queue s' = queue s \<and> results s' = results s"
  unfolding verifyImage_def
  by (auto split: if_splits option.splits prod.splits dest: checkImageExists_frame)

lemma verifyImages_frame:
  "verifyImages W p ds a s = (ds', a', s') \<Longrightarrow>
     visited s' = visited s \<and> queue s' = queue s \<and> results s' = results s"
proof (induction ds arbitrary: a s ds' a' s')
  case Nil
  then show ?case by simp
next
  case (Cons i ds)
  obtain i1 a1 s1 where one: "verifyImage W p i a s = (i1, a1, s1)"
    by (cases "verifyImage W p i a s") auto
  obtain ds2 a2 s2 where two: "verifyImages W p ds a1 s1 = (ds2, a2, s2)"
    by (cases "verifyImages W p ds a1 s1") auto
  from Cons.prems one two have "s' = s2" by simp
  with Cons.IH [OF two] verifyImage_frame [OF one] show ?case by simp
qed

lemma inspectImages_frame:
  "inspectImages W u r s = (r', s') \<Longrightarrow>
     visited s' = visited s \<and> queue s' = queue s \<and> results s' = results s"
  unfolding inspectImages_def
  by (auto split: option.splits prod.splits dest: verifyImages_frame)

lemma inspectImages_result:
  "inspectImages W u r s = (r', s') \<Longrightarrow>
     url r' = url r \<and> links r' = links r \<and> documentLinks r' = documentLinks r
     \<and> isDocument r' = isDocument r \<and> benignErrors r' = benignErrors r"
  unfolding inspectImages_def
  by (auto split: option.splits prod.splits)

lemma inspectPage_Some:
  assumes "inspectPage W u r s = Some s'"
  obtains t ls r2 s2 where
    "dom_title (pageDom W u) = Some t" "dom_links (pageDom W u) = Some ls"
    "inspectImages W u
       (r\<lparr>title := (if t = [] then warningSign @ '' Missing <title>'' else t),
          metaDescription := (case dom_metaDescription (pageDom W u) of None \<Rightarrow> [] | Some d \<Rightarrow> d),
          metaTags := (case dom_metaTags (pageDom W u) of None \<Rightarrow> metaTags r | Some m \<Rightarrow> m)\<rparr>) s = (r2, s2)"
    "s' = s2\<lparr>queue := snd (snd (partitionLinks W (visited s2) ls ([], [], queue s2))),
            results := dispatch (dom_events (pageDom W u)) (results s2) @
              [deliver (dom_events (pageDom W u))
                 (r2\<lparr>links := fst (partitionLinks W (visited s2) ls ([], [], queue s2)),
                     documentLinks := Some (fst (snd (partitionLinks W (visited s2) ls ([], [], queue s2))))\<rparr>)]\<rparr>"
  using assms unfolding inspectPage_def
  by (auto simp: Let_def split: option.splits prod.splits)

lemma crawlStep_cases:
  assumes "queue s = u # rest" "crawlStep W s = Some s'"
  obtains
    (skip) "normalizeUrl W u \<in> visited s" "s' = s\<lparr>queue := rest\<rparr>"
  | (document) "normalizeUrl W u \<notin> visited s" "isDocumentUrl W u"
      "s' = s\<lparr>queue := rest, visited := insert (normalizeUrl W u) (visited s),
              results := dispatch (events (gotoDocument W u)) (results s) @
                           [snd (checkDocumentUrl W u (newPageResult u))]\<rparr>"
  | (failed) message where "normalizeUrl W u \<notin> visited s" "\<not> isDocumentUrl W u"
      "response (goto W u) = Rejected message"
      "s' = s\<lparr>queue := rest, visited := insert (normalizeUrl W u) (visited s),
              results := dispatch (events (goto W u)) (results s) @
                [(deliver (events (goto W u)) (setupErrorHandling (newPageResult u)))
                   \<lparr>jsErrors := jsErrors (deliver (events (goto W u)) (setupErrorHandling (newPageResult u)))
                                  @ [''Page failed to load: '' @ message],
                    loadTime := elapsed (goto W u)\<rparr>]\<rparr>"
  | (loaded) st where "normalizeUrl W u \<notin> visited s" "\<not> isDocumentUrl W u"
      "response (goto W u) = Resolved st"
      "inspectPage W u
         ((deliver (events (goto W u)) (setupErrorHandling (newPageResult u)))
            \<lparr>loadTime := elapsed (goto W u), statusCode := statusOr200 st\<rparr>)
         (s\<lparr>queue := rest, visited := insert (normalizeUrl W u) (visited s),
            results := dispatch (events (goto W u)) (results s)\<rparr>) = Some s'"
  using assms unfolding crawlStep_def
  by (auto simp: Let_def split: if_splits GotoResult.splits)

lemma crawlLoop_reachable:
  "reachable W s \<Longrightarrow> crawlLoop n W s = Finished t \<or> crawlLoop n W s = Running t \<Longrightarrow> reachable W t"
proof (induction n arbitrary: s)
  case 0
  then show ?case by (auto split: if_splits)
next
  case (Suc n)
  show ?case
  proof (cases "queue s = []")
    case True
    with Suc.prems show ?thesis by auto
  next
    case False
    with Suc.prems obtain s' where s': "crawlStep W s = Some s'"
      and run: "crawlLoop n W s' = Finished t \<or> crawlLoop n W s' = Running t"
      by (auto split: option.splits)
    from Suc.prems(1) False s' have "reachable W s'" by (rule reachable.step)
    from Suc.IH [OF this run] show ?thesis .
  qed
qed

lemma crawlAndTest_reachable:
  "crawlAndTest n W = Finished t \<or> crawlAndTest n W = Running t \<Longrightarrow> reachable W t"
  unfolding crawlAndTest_def by (rule crawlLoop_reachable [OF reachable.start])

text \<open>A run with more fuel continues from the state a run with less fuel has reached.\<close>

lemma crawlLoop_split:
  "crawlLoop k W s = Finished t \<or> crawlLoop k W s = Running t
     \<Longrightarrow> crawlLoop (k + j) W s = crawlLoop j W t"
proof (induction k arbitrary: s)
  case 0
  then show ?case by (cases j) (auto split: if_splits)
next
  case (Suc k)
  show ?case
  proof (cases "queue s = []")
    case True
    with Suc.prems show ?thesis by (cases j) auto
  next
    case False
    with Suc.prems obtain s1 where s1: "crawlStep W s = Some s1"
      and run: "crawlLoop k W s1 = Finished t \<or> crawlLoop k W s1 = Running t"
      by (auto split: option.splits)
    from Suc.IH [OF run] False s1 show ?thesis by simp
  qed
qed

lemma partitionLinks_acc:
  "\<exists>new. partitionLinks W vis ls (il, dl, q) = (il @ new, dl @ filter (isDocumentUrl W) ls, q @ new)
     \<and> set new \<subseteq> {l \<in> set ls. \<not> isDocumentUrl W l \<and> prefix (ROOT W) l \<and> normalizeUrl W l \<notin> vis}
     \<and> (distinct (map (normalizeUrl W) q) \<longrightarrow> distinct (map (normalizeUrl W) (q @ new)))
     \<and> (\<forall>l\<in>set ls. \<not> isDocumentUrl W l \<and> prefix (ROOT W) l \<and> normalizeUrl W l \<notin> vis
            \<longrightarrow> normalizeUrl W l \<in> normalizeUrl W ` set (q @ new))"
proof (induction ls arbitrary: il dl q)
  case Nil
  show ?case by simp
next
  case (Cons l ls)
  show ?case
  proof (cases "\<not> isDocumentUrl W l \<and> prefix (ROOT W) l \<and> normalizeUrl W l \<notin> vis
                 \<and> normalizeUrl W l \<notin> normalizeUrl W ` set q")
    case True
    then have "\<not> list_ex (\<lambda>x. normalizeUrl W x = normalizeUrl W l) q"
      unfolding list_ex_iff by (metis imageI)
    with True have st: "linkStep W vis (il, dl, q) l = (il @ [l], dl, q @ [l])"
      by (simp add: linkStep_def)
    from Cons.IH [of "il @ [l]" dl "q @ [l]"] obtain new where
      new: "partitionLinks W vis ls (il @ [l], dl, q @ [l]) = ((il @ [l]) @ new, dl @ filter (isDocumentUrl W) ls, (q @ [l]) @ new)"
      "set new \<subseteq> {l \<in> set ls. \<not> isDocumentUrl W l \<and> prefix (ROOT W) l \<and> normalizeUrl W l \<notin> vis}"
      "distinct (map (normalizeUrl W) (q @ [l])) \<longrightarrow> distinct (map (normalizeUrl W) ((q @ [l]) @ new))"
      "\<forall>x\<in>set ls. \<not> isDocumentUrl W x \<and> prefix (ROOT W) x \<and> normalizeUrl W x \<notin> vis
            \<longrightarrow> normalizeUrl W x \<in> normalizeUrl W ` set ((q @ [l]) @ new)"
      by blast
    show ?thesis
    proof (intro exI [of _ "l # new"] conjI)
      show "partitionLinks W vis (l # ls) (il, dl, q) = (il @ l # new, dl @ filter (isDocumentUrl W) (l # ls), q @ l # new)"
        using st new(1) True by simp
      show "set (l # new) \<subseteq> {x \<in> set (l # ls). \<not> isDocumentUrl W x \<and> prefix (ROOT W) x \<and> normalizeUrl W x \<notin> vis}"
        using new(2) True by auto
      show "distinct (map (normalizeUrl W) q) \<longrightarrow> distinct (map (normalizeUrl W) (q @ l # new))"
        using new(3) True by auto
      show "\<forall>x\<in>set (l # ls). \<not> isDocumentUrl W x \<and> prefix (ROOT W) x \<and> normalizeUrl W x \<notin> vis
            \<longrightarrow> normalizeUrl W x \<in> normalizeUrl W ` set (q @ l # new)"
        using new(4) by auto
    qed
  next
    case False
    then have "isDocumentUrl W l \<or> \<not> prefix (ROOT W) l \<or> normalizeUrl W l \<in> vis
                 \<or> list_ex (\<lambda>x. normalizeUrl W x = normalizeUrl W l) q"
      unfolding list_ex_iff by auto
    then have st: "linkStep W vis (il, dl, q) l = (il, dl @ (if isDocumentUrl W l then [l] else []), q)"
      by (auto simp: linkStep_def Let_def)
    from Cons.IH [of il "dl @ (if isDocumentUrl W l then [l] else [])" q] obtain new where
      new: "partitionLinks W vis ls (il, dl @ (if isDocumentUrl W l then [l] else []), q)
              = (il @ new, (dl @ (if isDocumentUrl W l then [l] else [])) @ filter (isDocumentUrl W) ls, q @ new)"
      "set new \<subseteq> {l \<in> set ls. \<not> isDocumentUrl W l \<and> prefix (ROOT W) l \<and> normalizeUrl W l \<notin> vis}"
      "distinct (map (normalizeUrl W) q) \<longrightarrow> distinct (map (normalizeUrl W) (q @ new))"
      "\<forall>x\<in>set ls. \<not> isDocumentUrl W x \<and> prefix (ROOT W) x \<and> normalizeUrl W x \<notin> vis
            \<longrightarrow> normalizeUrl W x \<in> normalizeUrl W ` set (q @ new)"
      by blast
    show ?thesis
    proof (intro exI [of _ new] conjI)
      show "partitionLinks W vis (l # ls) (il, dl, q) = (il @ new, dl @ filter (isDocumentUrl W) (l # ls), q @ new)"
        using st new(1) by simp
      show "set new \<subseteq> {x \<in> set (l # ls). \<not> isDocumentUrl W x \<and> prefix (ROOT W) x \<and> normalizeUrl W x \<notin> vis}"
        using new(2) by auto
      show "distinct (map (normalizeUrl W) q) \<longrightarrow> distinct (map (normalizeUrl W) (q @ new))"
        using new(3) .
      show "\<forall>x\<in>set (l # ls). \<not> isDocumentUrl W x \<and> prefix (ROOT W) x \<and> normalizeUrl W x \<notin> vis
            \<longrightarrow> normalizeUrl W x \<in> normalizeUrl W ` set (q @ new)"
        using new(4) False by auto
    qed
  qed
qed

lemma deliver_Nil [simp]: "deliver [] r = r"
  by (simp add: deliver_def)

lemma deliver_append: "deliver (a @ b) r = deliver b (deliver a r)"
  by (simp add: deliver_def)

lemma dispatch_rel: "list_all2 (\<lambda>x r. \<exists>evs. x = deliver evs r) (dispatch evs rs) rs"
proof -
  have "\<And>r. \<exists>evs'. (if benignErrors r \<noteq> None then deliver evs r else r) = deliver evs' r"
    by (metis deliver_Nil)
  then show ?thesis
    unfolding dispatch_def list_all2_map1 by (simp add: list_all2_same del: not_None_eq)
qed

lemma dispatch_rel_trans:
  assumes "list_all2 (\<lambda>x r. \<exists>evs. x = deliver evs r) ys rs"
  shows "list_all2 (\<lambda>x r. \<exists>evs. x = deliver evs r) (dispatch evs ys) rs"
proof -
  have "list_all2 (\<lambda>x r. \<exists>evs. x = deliver evs r) (dispatch evs ys) ys" by (rule dispatch_rel)
  from list_all2_trans [OF _ this assms] show ?thesis
    by (metis (mono_tags, lifting) deliver_append)
qed

lemma checkDocumentUrl_fields [simp]:
  "url (snd (checkDocumentUrl W u r)) = url r"
  "links (snd (checkDocumentUrl W u r)) = links r"
  "documentLinks (snd (checkDocumentUrl W u r)) = documentLinks r"
  "benignErrors (snd (checkDocumentUrl W u r)) = benignErrors r"
  "imagesAnalysis (snd (checkDocumentUrl W u r)) = imagesAnalysis r"
  unfolding checkDocumentUrl_def
  by (simp_all add: Let_def split: GotoResult.splits option.splits)

lemma newPageResult_fields [simp]:
  "url (newPageResult u) = u" "links (newPageResult u) = []"
  "documentLinks (newPageResult u) = None" "benignErrors (newPageResult u) = None"
  "isDocument (newPageResult u) = False"
  by (simp_all add: newPageResult_def)

lemma setupErrorHandling_fields [simp]:
  "url (setupErrorHandling r) = url r" "links (setupErrorHandling r) = links r"
  "documentLinks (setupErrorHandling r) = documentLinks r"
  "isDocument (setupErrorHandling r) = isDocument r"
  "benignErrors (setupErrorHandling r) = Some []"
  "imagesAnalysis (setupErrorHandling r) = imagesAnalysis r"
  by (simp_all add: setupErrorHandling_def)

text \<open>What one round does to the queue, the visited set and the list of results.\<close>

lemma crawlStep_summary:
  assumes q: "queue s = u # rest" and st: "crawlStep W s = Some s'"
    and nv: "normalizeUrl W u \<notin> visited s"
  shows "\<exists>olds r new ls.
           visited s' = insert (normalizeUrl W u) (visited s)
         \<and> results s' = olds @ [r] \<and> url r = u
         \<and> list_all2 (\<lambda>x r. \<exists>evs. x = deliver evs r) olds (results s)
         \<and> queue s' = rest @ new \<and> links r = new
         \<and> set new \<subseteq> {l \<in> set ls. \<not> isDocumentUrl W l \<and> prefix (ROOT W) l
                                  \<and> normalizeUrl W l \<notin> insert (normalizeUrl W u) (visited s)}
         \<and> (distinct (map (normalizeUrl W) rest) \<longrightarrow> distinct (map (normalizeUrl W) (rest @ new)))
         \<and> (documentLinks r = None \<or> documentLinks r = Some (filter (isDocumentUrl W) ls))"
  using q st
proof (cases rule: crawlStep_cases)
  case skip
  with nv show ?thesis by simp
next
  case document
  show ?thesis
    apply (rule exI [of _ "dispatch (events (gotoDocument W u)) (results s)"])
    apply (rule exI [of _ "snd (checkDocumentUrl W u (newPageResult u))"])
    apply (rule exI [of _ "[]"])
    apply (rule exI [of _ "[]"])
    using document by (simp add: dispatch_rel)
next
  case (failed message)
  show ?thesis
    apply (rule exI [of _ "dispatch (events (goto W u)) (results s)"])
    apply (rule exI [of _ "(deliver (events (goto W u)) (setupErrorHandling (newPageResult u)))
                   \<lparr>jsErrors := jsErrors (deliver (events (goto W u)) (setupErrorHandling (newPageResult u)))
                                  @ [''Page failed to load: '' @ message],
                    loadTime := elapsed (goto W u)\<rparr>"])
    apply (rule exI [of _ "[]"])
    apply (rule exI [of _ "[]"])
    using failed by (simp add: dispatch_rel)
next
  case (loaded st)
  from loaded(4) obtain t ls r2 s2 where
    ls: "dom_links (pageDom W u) = Some ls"
    and im: "inspectImages W u
       ((deliver (events (goto W u)) (setupErrorHandling (newPageResult u)))
            \<lparr>loadTime := elapsed (goto W u), statusCode := statusOr200 st,
             title := (if t = [] then warningSign @ '' Missing <title>'' else t),
             metaDescription := (case dom_metaDescription (pageDom W u) of None \<Rightarrow> [] | Some d \<Rightarrow> d),
             metaTags := (case dom_metaTags (pageDom W u) of None \<Rightarrow>
                 metaTags ((deliver (events (goto W u)) (setupErrorHandling (newPageResult u)))
                    \<lparr>loadTime := elapsed (goto W u), statusCode := statusOr200 st\<rparr>) | Some m \<Rightarrow> m)\<rparr>)
         (s\<lparr>queue := rest, visited := insert (normalizeUrl W u) (visited s),
            results := dispatch (events (goto W u)) (results s)\<rparr>) = (r2, s2)"
    and s': "s' = s2\<lparr>queue := snd (snd (partitionLinks W (visited s2) ls ([], [], queue s2))),
            results := dispatch (dom_events (pageDom W u)) (results s2) @
              [deliver (dom_events (pageDom W u))
                 (r2\<lparr>links := fst (partitionLinks W (visited s2) ls ([], [], queue s2)),
                     documentLinks := Some (fst (snd (partitionLinks W (visited s2) ls ([], [], queue s2))))\<rparr>)]\<rparr>"
    by (rule inspectPage_Some) simp
  from inspectImages_frame [OF im] have fr:
    "visited s2 = insert (normalizeUrl W u) (visited s)" "queue s2 = rest"
    "results s2 = dispatch (events (goto W u)) (results s)" by simp_all
  from inspectImages_result [OF im] have r2: "url r2 = u" by simp
  from partitionLinks_acc [of W "insert (normalizeUrl W u) (visited s)" ls "[]" "[]" rest]
  obtain new where new:
    "partitionLinks W (insert (normalizeUrl W u) (visited s)) ls ([], [], rest)
       = (new, filter (isDocumentUrl W) ls, rest @ new)"
    "set new \<subseteq> {l \<in> set ls. \<not> isDocumentUrl W l \<and> prefix (ROOT W) l
                     \<and> normalizeUrl W l \<notin> insert (normalizeUrl W u) (visited s)}"
    "distinct (map (normalizeUrl W) rest) \<longrightarrow> distinct (map (normalizeUrl W) (rest @ new))"
    by auto
  show ?thesis
    apply (rule exI [of _ "dispatch (dom_events (pageDom W u)) (dispatch (events (goto W u)) (results s))"])
    apply (rule exI [of _ "deliver (dom_events (pageDom W u))
                 (r2\<lparr>links := new, documentLinks := Some (filter (isDocumentUrl W) ls)\<rparr>)"])
    apply (rule exI [of _ new])
    apply (rule exI [of _ ls])
    using s' fr r2 new by (simp add: dispatch_rel dispatch_rel_trans)
qed

lemma rel_map:
  assumes "\<And>evs r. f (deliver evs r) = f r"
    and "list_all2 (\<lambda>x r. \<exists>evs. x = deliver evs r) olds rs"
  shows "map f olds = map f rs"
  using assms(2) by (induction rule: list_all2_induct) (auto simp: assms(1))

lemma rel_map_url: "list_all2 (\<lambda>x r. \<exists>evs. x = deliver evs r) olds rs \<Longrightarrow> map url olds = map url rs"
  by (rule rel_map) simp

text \<open>
  Queue entries have pairwise different identities, none of them visited; the visited
  identities are those of the results, each once.
\<close>

lemma reachable_visit_inv:
  "reachable W s \<Longrightarrow>
     distinct (map (normalizeUrl W) (queue s))
     \<and> (\<forall>q\<in>set (queue s). normalizeUrl W q \<notin> visited s)
     \<and> visited s = set (map (normalizeUrl W) (map url (results s)))
     \<and> distinct (map (normalizeUrl W) (map url (results s)))"
proof (induction rule: reachable.induct)
  case start
  show ?case by (simp add: initialState_def)
next
  case (step s s')
  from step.hyps(2) obtain u rest where q: "queue s = u # rest" by (cases "queue s") auto
  from step.IH have ih:
    "distinct (map (normalizeUrl W) (queue s))"
    "\<forall>q\<in>set (queue s). normalizeUrl W q \<notin> visited s"
    "visited s = set (map (normalizeUrl W) (map url (results s)))"
    "distinct (map (normalizeUrl W) (map url (results s)))"
    by blast+
  from ih(2) q have nv: "normalizeUrl W u \<notin> visited s" by simp
  from crawlStep_summary [OF q step.hyps(3) nv] obtain olds r new ls where
    v: "visited s' = insert (normalizeUrl W u) (visited s)"
    and res: "results s' = olds @ [r]" "url r = u"
      "list_all2 (\<lambda>x r. \<exists>evs. x = deliver evs r) olds (results s)"
    and qu: "queue s' = rest @ new"
    and new: "set new \<subseteq> {l \<in> set ls. \<not> isDocumentUrl W l \<and> prefix (ROOT W) l
                                  \<and> normalizeUrl W l \<notin> insert (normalizeUrl W u) (visited s)}"
      "distinct (map (normalizeUrl W) rest) \<longrightarrow> distinct (map (normalizeUrl W) (rest @ new))"
    by blast
  have urls: "map url (results s') = map url (results s) @ [u]"
    using res by (simp add: rel_map_url)
  from ih(1) q have d: "distinct (map (normalizeUrl W) rest)" by simp
  have 1: "distinct (map (normalizeUrl W) (queue s'))" using new(2) d qu by simp
  have 2: "\<forall>x\<in>set (queue s'). normalizeUrl W x \<notin> visited s'"
  proof
    fix x assume "x \<in> set (queue s')"
    then consider "x \<in> set rest" | "x \<in> set new" using qu by auto
    then show "normalizeUrl W x \<notin> visited s'"
    proof cases
      case 1
      with ih(1,2) q have "normalizeUrl W x \<notin> visited s" "normalizeUrl W x \<noteq> normalizeUrl W u"
        by (auto simp: image_iff)
      with v show ?thesis by simp
    next
      case 2
      with new(1) v show ?thesis by auto
    qed
  qed
  have 3: "visited s' = set (map (normalizeUrl W) (map url (results s')))"
    using v urls ih(3) by simp
  have 4: "distinct (map (normalizeUrl W) (map url (results s')))"
    using urls ih(3,4) nv by simp
  from 1 2 3 4 show ?case by blast
qed

text \<open>The run over the example site, evaluated.\<close>

lemma siteWeb_run:
  "(case crawlAndTest 5 siteWeb of
      Finished s \<Rightarrow>
        map url (results s) = [''https://x.com'', ''https://x.com/about'', ''https://x.com/slow'']
        \<and> headRequests s = [''https://x.com/logo.png'', ''https://x.com/gone.png?v=1'']
        \<and> queue s = []
        \<and> map (\<lambda>r. map verifiedExists (details (imagesAnalysis r))) (results s)
            = [[Some True, Some False, None], [Some True, Some False], []]
        \<and> map (\<lambda>r. map cachedCheck (details (imagesAnalysis r))) (results s)
            = [[Some False, Some False, None], [Some True, Some True], []]
        \<and> map_option exists (checkedImages s ''https://x.com/gone.png'') = Some False
        \<and> map links (results s) = [[''https://x.com/about'', ''https://x.com/slow''], [], []]
        \<and> map documentLinks (results s)
            = [Some [''https://x.com/files/report.pdf'', ''https://other.com/brochure.pdf''], Some [], None]
        \<and> map loadTime (results s) = [120, 120, 30000]
        \<and> map isDocument (results s) = [False, False, False]
    | _ \<Rightarrow> False)"
  by code_simp

text \<open>
  Claim C1.  In every state of a run (when the loop stops, and after any number of
  rounds), no two results have the same normalised page identity.  A dequeued URL whose
  identity is in the visited set is dropped: the round only shortens the queue.
  Otherwise the identity is in the visited set when the page's links are looked at: no
  link with the page's own identity is added to the queue.
\<close>

theorem at_most_once:
  "(crawlAndTest n W = Finished s \<or> crawlAndTest n W = Running s
      \<longrightarrow> distinct (map (\<lambda>r. normalizeUrl W (url r)) (results s)))
   \<and> (queue t = u # rest \<and> normalizeUrl W u \<in> visited t
      \<longrightarrow> crawlStep W t = Some (t\<lparr>queue := rest\<rparr>))
   \<and> (queue t = u # rest \<and> normalizeUrl W u \<notin> visited t \<and> crawlStep W t = Some t'
      \<longrightarrow> normalizeUrl W u \<in> visited t'
          \<and> (\<forall>q\<in>set (queue t'). normalizeUrl W q = normalizeUrl W u \<longrightarrow> q \<in> set rest))"
proof (intro conjI impI)
  assume "crawlAndTest n W = Finished s \<or> crawlAndTest n W = Running s"
  then have "reachable W s" by (rule crawlAndTest_reachable)
  from reachable_visit_inv [OF this]
  show "distinct (map (\<lambda>r. normalizeUrl W (url r)) (results s))" by (simp add: comp_def)
next
  assume "queue t = u # rest \<and> normalizeUrl W u \<in> visited t"
  then show "crawlStep W t = Some (t\<lparr>queue := rest\<rparr>)" by (simp add: crawlStep_def)
next
  assume a: "queue t = u # rest \<and> normalizeUrl W u \<notin> visited t \<and> crawlStep W t = Some t'"
  from crawlStep_summary [of t u rest W t'] a obtain new ls where
    v: "visited t' = insert (normalizeUrl W u) (visited t)"
    and qu: "queue t' = rest @ new"
    and new: "set new \<subseteq> {l \<in> set ls. \<not> isDocumentUrl W l \<and> prefix (ROOT W) l
                                  \<and> normalizeUrl W l \<notin> insert (normalizeUrl W u) (visited t)}"
    by blast
  from v show "normalizeUrl W u \<in> visited t'" by simp
  from qu new show "\<forall>q\<in>set (queue t'). normalizeUrl W q = normalizeUrl W u \<longrightarrow> q \<in> set rest" by auto
qed

theorem at_most_once_witness:
  "\<exists>s. crawlAndTest 5 siteWeb = Finished s
     \<and> map url (results s) = [''https://x.com'', ''https://x.com/about'', ''https://x.com/slow'']
     \<and> distinct (map (\<lambda>r. normalizeUrl siteWeb (url r)) (results s))"
proof -
  from siteWeb_run obtain s where s: "crawlAndTest 5 siteWeb = Finished s"
    "map url (results s) = [''https://x.com'', ''https://x.com/about'', ''https://x.com/slow'']"
    by (cases "crawlAndTest 5 siteWeb") auto
  from at_most_once [of 5 siteWeb s] s(1)
  have "distinct (map (\<lambda>r. normalizeUrl siteWeb (url r)) (results s))" by blast
  with s show ?thesis by (intro exI [of _ s]) simp
qed

lemma checkImageExists_hit:
  "checkedImages s (normalizeImageUrl W u) = Some e \<Longrightarrow> checkImageExists W p u s = (exists e, s)"
  by (simp add: checkImageExists_def)

lemma checkImageExists_miss:
  assumes "checkedImages s (normalizeImageUrl W u) = None"
    and "checkImageExists W p u s = (ex, s')"
  shows "\<exists>e. s' = s\<lparr>headRequests := headRequests s @ [u],
                     checkedImages := (checkedImages s)(normalizeImageUrl W u \<mapsto> e)\<rparr>
             \<and> exists e = ex \<and> verified e \<and> originalUrl e = u
             \<and> (ex \<longleftrightarrow> fetchHead W p u = Some (FetchResponse 200 True))"
  using assms unfolding checkImageExists_def
  by (auto simp: Let_def split: option.splits FetchOutcome.splits)

text \<open>A call of \<open>checkImageExists\<close> keeps the cache invariant and every entry.\<close>

lemma checkImageExists_cache:
  assumes "checkImageExists W p u s = (ex, s')"
  shows "(cacheInv W s \<longrightarrow> cacheInv W s')
       \<and> (\<forall>k e. checkedImages s k = Some e \<longrightarrow> checkedImages s' k = Some e)
       \<and> checkedImages s' (normalizeImageUrl W u) \<noteq> None"
proof (cases "checkedImages s (normalizeImageUrl W u)")
  case (Some e)
  with assms show ?thesis by (simp add: checkImageExists_hit)
next
  case None
  from checkImageExists_miss [OF None assms] obtain e where
    s': "s' = s\<lparr>headRequests := headRequests s @ [u],
                 checkedImages := (checkedImages s)(normalizeImageUrl W u \<mapsto> e)\<rparr>"
    and e: "verified e" by blast
  have "cacheInv W s \<longrightarrow> cacheInv W s'"
  proof
    assume inv: "cacheInv W s"
    with None have "normalizeImageUrl W u \<notin> normalizeImageUrl W ` set (headRequests s)"
      unfolding cacheInv_def by (metis domIff)
    with inv e None show "cacheInv W s'"
      unfolding cacheInv_def s' by (auto simp: ran_map_upd)
  qed
  moreover have "\<forall>k e'. checkedImages s k = Some e' \<longrightarrow> checkedImages s' k = Some e'"
    using None unfolding s' by auto
  moreover have "checkedImages s' (normalizeImageUrl W u) \<noteq> None" unfolding s' by simp
  ultimately show ?thesis by blast
qed

lemma verifyImage_cache:
  assumes "verifyImage W p i a s = (i', a', s')"
  shows "(cacheInv W s \<longrightarrow> cacheInv W s')
       \<and> (\<forall>k e. checkedImages s k = Some e \<longrightarrow> checkedImages s' k = Some e)"
  using assms unfolding verifyImage_def
  by (auto split: if_splits option.splits prod.splits dest!: checkImageExists_cache)

lemma verifyImages_cache:
  "verifyImages W p ds a s = (ds', a', s') \<Longrightarrow>
     (cacheInv W s \<longrightarrow> cacheInv W s')
     \<and> (\<forall>k e. checkedImages s k = Some e \<longrightarrow> checkedImages s' k = Some e)"
proof (induction ds arbitrary: a s ds' a' s')
  case Nil
  then show ?case by simp
next
  case (Cons i ds)
  obtain i1 a1 s1 where one: "verifyImage W p i a s = (i1, a1, s1)"
    by (cases "verifyImage W p i a s") auto
  obtain ds2 a2 s2 where two: "verifyImages W p ds a1 s1 = (ds2, a2, s2)"
    by (cases "verifyImages W p ds a1 s1") auto
  from Cons.prems one two have "s' = s2" by simp
  with Cons.IH [OF two] verifyImage_cache [OF one] show ?case by simp
qed

lemma inspectImages_cache:
  "inspectImages W u r s = (r', s') \<Longrightarrow>
     (cacheInv W s \<longrightarrow> cacheInv W s')
     \<and> (\<forall>k e. checkedImages s k = Some e \<longrightarrow> checkedImages s' k = Some e)"
  unfolding inspectImages_def
  by (auto split: option.splits prod.splits dest!: verifyImages_cache)

lemma cacheInv_cong:
  "headRequests s' = headRequests s \<Longrightarrow> checkedImages s' = checkedImages s \<Longrightarrow> cacheInv W s' = cacheInv W s"
  by (simp add: cacheInv_def)

lemma crawlStep_cache:
  assumes q: "queue s = u # rest" and st: "crawlStep W s = Some s'"
  shows "(cacheInv W s \<longrightarrow> cacheInv W s')
       \<and> (\<forall>k e. checkedImages s k = Some e \<longrightarrow> checkedImages s' k = Some e)"
  using q st
proof (cases rule: crawlStep_cases)
  case skip
  then show ?thesis by (simp add: cacheInv_def)
next
  case document
  then show ?thesis by (simp add: cacheInv_def)
next
  case (failed message)
  then show ?thesis by (simp add: cacheInv_def)
next
  case (loaded st)
  from loaded(4) obtain r1 r2 s2 where
    im: "inspectImages W u r1
         (s\<lparr>queue := rest, visited := insert (normalizeUrl W u) (visited s),
            results := dispatch (events (goto W u)) (results s)\<rparr>) = (r2, s2)"
    and s': "headRequests s' = headRequests s2" "checkedImages s' = checkedImages s2"
    by (rule inspectPage_Some) simp
  have c: "cacheInv W (s\<lparr>queue := rest, visited := insert (normalizeUrl W u) (visited s),
            results := dispatch (events (goto W u)) (results s)\<rparr>) = cacheInv W s"
    by (simp add: cacheInv_def)
  from inspectImages_cache [OF im] have
    "cacheInv W s \<longrightarrow> cacheInv W s2"
    "\<forall>k e. checkedImages s k = Some e \<longrightarrow> checkedImages s2 k = Some e"
    unfolding c by simp_all
  with cacheInv_cong [OF s'] s'(2) show ?thesis by simp
qed





text \<open>How a round builds the result it appends.\<close>

lemma crawlStep_result:
  assumes q: "queue s = u # rest" and st: "crawlStep W s = Some s'"
    and nv: "normalizeUrl W u \<notin> visited s"
  obtains
    (document) olds where "isDocumentUrl W u"
      "results s' = olds @ [snd (checkDocumentUrl W u (newPageResult u))]"
      "list_all2 (\<lambda>x r. \<exists>evs. x = deliver evs r) olds (results s)"
      "queue s' = rest"
  | (failed) olds message where "\<not> isDocumentUrl W u" "response (goto W u) = Rejected message"
      "results s' = olds @
         [(deliver (events (goto W u)) (setupErrorHandling (newPageResult u)))
            \<lparr>jsErrors := jsErrors (deliver (events (goto W u)) (setupErrorHandling (newPageResult u)))
                           @ [''Page failed to load: '' @ message],
             loadTime := elapsed (goto W u)\<rparr>]"
      "list_all2 (\<lambda>x r. \<exists>evs. x = deliver evs r) olds (results s)"
      "queue s' = rest"
  | (loaded) olds st t ls s1 r2 s2 new where "\<not> isDocumentUrl W u"
      "response (goto W u) = Resolved st"
      "dom_title (pageDom W u) = Some t" "dom_links (pageDom W u) = Some ls"
      "inspectImages W u
         ((deliver (events (goto W u)) (setupErrorHandling (newPageResult u)))
            \<lparr>loadTime := elapsed (goto W u), statusCode := statusOr200 st,
             title := (if t = [] then warningSign @ '' Missing <title>'' else t),
             metaDescription := (case dom_metaDescription (pageDom W u) of None \<Rightarrow> [] | Some d \<Rightarrow> d),
             metaTags := (case dom_metaTags (pageDom W u) of None \<Rightarrow> [] | Some m \<Rightarrow> m)\<rparr>)
         s1 = (r2, s2)"
      "results s' = olds @
         [deliver (dom_events (pageDom W u))
            (r2\<lparr>links := new, documentLinks := Some (filter (isDocumentUrl W) ls)\<rparr>)]"
      "list_all2 (\<lambda>x r. \<exists>evs. x = deliver evs r) olds (results s)"
      "queue s' = rest @ new"
      "set new \<subseteq> {l \<in> set ls. \<not> isDocumentUrl W l \<and> prefix (ROOT W) l
                       \<and> normalizeUrl W l \<notin> insert (normalizeUrl W u) (visited s)}"
      "partitionLinks W (insert (normalizeUrl W u) (visited s)) ls ([], [], rest)
         = (new, filter (isDocumentUrl W) ls, rest @ new)"
  using q st
proof (cases rule: crawlStep_cases)
  case skip
  with nv show ?thesis by simp
next
  case document
  show ?thesis
    by (rule that(1) [of "dispatch (events (gotoDocument W u)) (results s)"])
       (use document in \<open>simp_all add: dispatch_rel\<close>)
next
  case (failed message)
  show ?thesis
    by (rule that(2) [of message "dispatch (events (goto W u)) (results s)"])
       (use failed in \<open>simp_all add: dispatch_rel\<close>)
next
  case (loaded st)
  from loaded(4) obtain t ls r2 s2 where
    t: "dom_title (pageDom W u) = Some t"
    and ls: "dom_links (pageDom W u) = Some ls"
    and im: "inspectImages W u
       ((deliver (events (goto W u)) (setupErrorHandling (newPageResult u)))
            \<lparr>loadTime := elapsed (goto W u), statusCode := statusOr200 st,
             title := (if t = [] then warningSign @ '' Missing <title>'' else t),
             metaDescription := (case dom_metaDescription (pageDom W u) of None \<Rightarrow> [] | Some d \<Rightarrow> d),
             metaTags := (case dom_metaTags (pageDom W u) of None \<Rightarrow>
                 metaTags ((deliver (events (goto W u)) (setupErrorHandling (newPageResult u)))
                    \<lparr>loadTime := elapsed (goto W u), statusCode := statusOr200 st\<rparr>) | Some m \<Rightarrow> m)\<rparr>)
         (s\<lparr>queue := rest, visited := insert (normalizeUrl W u) (visited s),
            results := dispatch (events (goto W u)) (results s)\<rparr>) = (r2, s2)"
    and s': "s' = s2\<lparr>queue := snd (snd (partitionLinks W (visited s2) ls ([], [], queue s2))),
            results := dispatch (dom_events (pageDom W u)) (results s2) @
              [deliver (dom_events (pageDom W u))
                 (r2\<lparr>links := fst (partitionLinks W (visited s2) ls ([], [], queue s2)),
                     documentLinks := Some (fst (snd (partitionLinks W (visited s2) ls ([], [], queue s2))))\<rparr>)]\<rparr>"
    by (rule inspectPage_Some) simp
  have mt: "metaTags ((deliver (events (goto W u)) (setupErrorHandling (newPageResult u)))
                    \<lparr>loadTime := elapsed (goto W u), statusCode := statusOr200 st\<rparr>) = []"
    by (simp add: setupErrorHandling_def newPageResult_def)
  from inspectImages_frame [OF im] have fr:
    "visited s2 = insert (normalizeUrl W u) (visited s)" "queue s2 = rest"
    "results s2 = dispatch (events (goto W u)) (results s)" by simp_all
  from partitionLinks_acc [of W "insert (normalizeUrl W u) (visited s)" ls "[]" "[]" rest]
  obtain new where new:
    "partitionLinks W (insert (normalizeUrl W u) (visited s)) ls ([], [], rest)
       = (new, filter (isDocumentUrl W) ls, rest @ new)"
    "set new \<subseteq> {l \<in> set ls. \<not> isDocumentUrl W l \<and> prefix (ROOT W) l
                     \<and> normalizeUrl W l \<notin> insert (normalizeUrl W u) (visited s)}"
    by auto
  have rel: "list_all2 (\<lambda>x r. \<exists>evs. x = deliver evs r)
               (dispatch (dom_events (pageDom W u)) (dispatch (events (goto W u)) (results s)))
               (results s)"
    by (rule dispatch_rel_trans [OF dispatch_rel])
  show ?thesis
    by (rule that(3) [OF loaded(2) loaded(3) t ls im [unfolded mt], of _ new])
       (use s' fr new rel in \<open>simp_all\<close>)
qed

lemma list_all2_left_mem: "list_all2 P xs ys \<Longrightarrow> x \<in> set xs \<Longrightarrow> \<exists>y\<in>set ys. P x y"
  by (induction rule: list_all2_induct) auto

lemma reachable_head_unvisited:
  assumes "reachable W s" "queue s = u # rest"
  shows "normalizeUrl W u \<notin> visited s"
proof -
  from reachable_visit_inv [OF assms(1)]
  have "\<forall>q\<in>set (queue s). normalizeUrl W q \<notin> visited s" by blast
  with assms(2) show ?thesis by simp
qed

text \<open>
  A property of single results that the listeners cannot change holds for every result
  of every reachable state once it holds for the three kinds of new results.
\<close>

lemma reachable_results:
  assumes stable: "\<And>evs r. Q r \<Longrightarrow> Q (deliver evs r)"
    and document: "\<And>u. isDocumentUrl W u \<Longrightarrow> Q (snd (checkDocumentUrl W u (newPageResult u)))"
    and failed: "\<And>u message. \<not> isDocumentUrl W u \<Longrightarrow> response (goto W u) = Rejected message \<Longrightarrow>
        Q ((deliver (events (goto W u)) (setupErrorHandling (newPageResult u)))
            \<lparr>jsErrors := jsErrors (deliver (events (goto W u)) (setupErrorHandling (newPageResult u)))
                           @ [''Page failed to load: '' @ message],
             loadTime := elapsed (goto W u)\<rparr>)"
    and loaded: "\<And>u st t ls s1 r2 s2 new. \<not> isDocumentUrl W u \<Longrightarrow> response (goto W u) = Resolved st \<Longrightarrow>
        dom_title (pageDom W u) = Some t \<Longrightarrow> dom_links (pageDom W u) = Some ls \<Longrightarrow>
        inspectImages W u
         ((deliver (events (goto W u)) (setupErrorHandling (newPageResult u)))
            \<lparr>loadTime := elapsed (goto W u), statusCode := statusOr200 st,
             title := (if t = [] then warningSign @ '' Missing <title>'' else t),
             metaDescription := (case dom_metaDescription (pageDom W u) of None \<Rightarrow> [] | Some d \<Rightarrow> d),
             metaTags := (case dom_metaTags (pageDom W u) of None \<Rightarrow> [] | Some m \<Rightarrow> m)\<rparr>)
         s1 = (r2, s2) \<Longrightarrow>
        set new \<subseteq> {l \<in> set ls. \<not> isDocumentUrl W l \<and> prefix (ROOT W) l} \<Longrightarrow>
        Q (r2\<lparr>links := new, documentLinks := Some (filter (isDocumentUrl W) ls)\<rparr>)"
  shows "reachable W s \<Longrightarrow> \<forall>r\<in>set (results s). Q r"
proof (induction rule: reachable.induct)
  case start
  show ?case by (simp add: initialState_def)
next
  case (step s s')
  from step.hyps(2) obtain u rest where q: "queue s = u # rest" by (cases "queue s") auto
  from step.hyps(1) q have nv: "normalizeUrl W u \<notin> visited s" by (rule reachable_head_unvisited)
  have olds: "\<forall>r\<in>set olds. Q r"
    if "list_all2 (\<lambda>x r. \<exists>evs. x = deliver evs r) olds (results s)" for olds
  proof
    fix x assume "x \<in> set olds"
    with that obtain r evs where "r \<in> set (results s)" "x = deliver evs r"
      by (blast dest: list_all2_left_mem)
    with step.IH stable show "Q x" by blast
  qed
  from q step.hyps(3) nv show ?case
  proof (cases rule: crawlStep_result)
    case (document os)
    with olds [OF document(3)] assms(2) [OF document(1)] show ?thesis by simp
  next
    case (failed os message)
    with olds [OF failed(4)] assms(3) [OF failed(1,2)] show ?thesis by simp
  next
    case (loaded os st t ls s1 r2 s2 new)
    from loaded(9) have "set new \<subseteq> {l \<in> set ls. \<not> isDocumentUrl W l \<and> prefix (ROOT W) l}" by auto
    from assms(4) [OF loaded(1-5) this]
    have "Q (deliver (dom_events (pageDom W u))
               (r2\<lparr>links := new, documentLinks := Some (filter (isDocumentUrl W) ls)\<rparr>))"
      by (rule stable)
    with olds [OF loaded(7)] loaded(6) show ?thesis by simp
  qed
qed

subsection \<open>Images\<close>

lemma analyseImage_fold:
  "details (foldl analyseImage a images) =
     details a @ map (\<lambda>img. \<lparr>src = img_src img, alt = img_alt img,
                       naturalWidth = img_naturalWidth img, naturalHeight = img_naturalHeight img,
                       complete = img_complete img, isWorking = browserWorking img,
                       verifiedExists = None, cachedCheck = None\<rparr>) images
   \<and> working (foldl analyseImage a images) = working a + int (length (filter browserWorking images))
   \<and> broken (foldl analyseImage a images)
       = broken a + int (length (filter (\<lambda>img. \<not> browserWorking img) images))"
  by (induction images arbitrary: a) (auto simp: analyseImage_def Let_def)

lemma downgrade_effect:
  assumes "downgrade ex (i\<lparr>verifiedExists := Some ex, cachedCheck := c\<rparr>) a = (i', a')"
  shows "src i' = src i \<and> verifiedExists i' = Some ex
       \<and> (isWorking i' \<longleftrightarrow> isWorking i \<and> ex)
       \<and> working a' = working a - (if isWorking i \<and> \<not> ex then 1 else 0)
       \<and> broken a' = broken a + (if isWorking i \<and> \<not> ex then 1 else 0)"
  using assms by (auto simp: downgrade_def split: if_splits)

lemma verifyImage_effect:
  assumes "verifyImage W p i a s = (i', a', s')" and "verifiedExists i = None"
  shows "src i' = src i
       \<and> (isWorking i' \<longleftrightarrow> isWorking i \<and> verifiedExists i' \<noteq> Some False)
       \<and> working a' = working a - (if isWorking i \<and> verifiedExists i' = Some False then 1 else 0)
       \<and> broken a' = broken a + (if isWorking i \<and> verifiedExists i' = Some False then 1 else 0)"
proof (cases "src i \<noteq> [] \<and> \<not> prefix ''data:'' (src i)")
  case False
  with assms show ?thesis by (auto simp: verifyImage_def)
next
  case True
  show ?thesis
  proof (cases "checkedImages s (normalizeImageUrl W (src i))")
    case (Some e)
    with True assms(1) have "downgrade (exists e) (i\<lparr>verifiedExists := Some (exists e), cachedCheck := Some True\<rparr>) a = (i', a')"
      by (auto simp: verifyImage_def split: prod.splits)
    from downgrade_effect [OF this] show ?thesis by auto
  next
    case None
    with True assms(1) obtain ex where
      "downgrade ex (i\<lparr>verifiedExists := Some ex, cachedCheck := Some False\<rparr>) a = (i', a')"
      by (auto simp: verifyImage_def split: prod.splits)
    from downgrade_effect [OF this] show ?thesis by auto
  qed
qed

lemma verifyImages_effect:
  assumes "verifyImages W p ds a s = (ds', a', s')" and "\<forall>d\<in>set ds. verifiedExists d = None"
  shows "list_all2 (\<lambda>d d'. src d' = src d
                      \<and> (isWorking d' \<longleftrightarrow> isWorking d \<and> verifiedExists d' \<noteq> Some False)) ds ds'
       \<and> working a' = working a
           - int (length (filter (\<lambda>(d, d'). isWorking d \<and> verifiedExists d' = Some False) (zip ds ds')))
       \<and> broken a' = broken a
           + int (length (filter (\<lambda>(d, d'). isWorking d \<and> verifiedExists d' = Some False) (zip ds ds')))"
  using assms
proof (induction ds arbitrary: a s ds' a' s')
  case Nil
  then show ?case by simp
next
  case (Cons i ds)
  obtain i1 a1 s1 where one: "verifyImage W p i a s = (i1, a1, s1)"
    by (cases "verifyImage W p i a s") auto
  obtain ds2 a2 s2 where two: "verifyImages W p ds a1 s1 = (ds2, a2, s2)"
    by (cases "verifyImages W p ds a1 s1") auto
  from Cons.prems(1) one two have eq: "ds' = i1 # ds2" "a' = a2" by simp_all
  from Cons.prems(2) have "verifiedExists i = None" "\<forall>d\<in>set ds. verifiedExists d = None" by simp_all
  from verifyImage_effect [OF one this(1)] Cons.IH [OF two this(2)]
  show ?case unfolding eq by auto
qed

lemma inspectImages_reconciled:
  assumes "inspectImages W u r s = (r', s')" and "dom_images (pageDom W u) = Some images"
  shows "reconciled images (imagesAnalysis r')"
proof -
  let ?info = "\<lambda>img. \<lparr>src = img_src img, alt = img_alt img,
                       naturalWidth = img_naturalWidth img, naturalHeight = img_naturalHeight img,
                       complete = img_complete img, isWorking = browserWorking img,
                       verifiedExists = None, cachedCheck = None\<rparr>"
  let ?A = "analyseImages images"
  from analyseImage_fold [of "\<lparr>total' = int (length images), working = 0, broken = 0, withAlt = 0,
        withoutAlt = 0, details = []\<rparr>" images]
  have A: "details ?A = map ?info images"
    "working ?A = int (length (filter browserWorking images))"
    "broken ?A = int (length (filter (\<lambda>img. \<not> browserWorking img) images))"
    by (simp_all add: analyseImages_def)
  obtain ds a s2 where v: "verifyImages W u (details ?A) ?A s = (ds, a, s2)"
    by (cases "verifyImages W u (details ?A) ?A s") auto
  with assms have r': "imagesAnalysis r' = a\<lparr>details := ds\<rparr>"
    by (auto simp: inspectImages_def)
  have "\<forall>d\<in>set (details ?A). verifiedExists d = None" unfolding A by simp
  from verifyImages_effect [OF v this] have
    1: "list_all2 (\<lambda>d d'. src d' = src d
                      \<and> (isWorking d' \<longleftrightarrow> isWorking d \<and> verifiedExists d' \<noteq> Some False)) (map ?info images) ds"
    and 2: "working a = working ?A
           - int (length (filter (\<lambda>(d, d'). isWorking d \<and> verifiedExists d' = Some False) (zip (map ?info images) ds)))"
    and 3: "broken a = broken ?A
           + int (length (filter (\<lambda>(d, d'). isWorking d \<and> verifiedExists d' = Some False) (zip (map ?info images) ds)))"
    unfolding A by simp_all
  have z: "length (filter (\<lambda>(d, d'). isWorking d \<and> verifiedExists d' = Some False) (zip (map ?info images) ds))
           = downgrades images ds"
    unfolding downgrades_def zip_map1 filter_map length_map
    by (rule arg_cong [where f = length], rule filter_cong) auto
  from 1 have "list_all2 (\<lambda>img d. src d = img_src img
                   \<and> (isWorking d \<longleftrightarrow> browserWorking img \<and> verifiedExists d \<noteq> Some False)) images ds"
    unfolding list_all2_map1 by simp
  with 2 3 show ?thesis unfolding reconciled_def r' z A by simp
qed

lemma reachable_reconciled:
  assumes "reachable W s"
  shows "\<forall>r\<in>set (results s). \<not> isDocumentUrl W (url r) \<longrightarrow>
           (\<forall>st images. response (goto W (url r)) = Resolved st \<longrightarrow>
              dom_images (pageDom W (url r)) = Some images \<longrightarrow> reconciled images (imagesAnalysis r))"
  using _ _ _ _ assms
proof (rule reachable_results)
  fix r2 :: PageResult and u st t ls s1 s2 new
  assume "inspectImages W u
         ((deliver (events (goto W u)) (setupErrorHandling (newPageResult u)))
            \<lparr>loadTime := elapsed (goto W u), statusCode := statusOr200 st,
             title := (if t = [] then warningSign @ '' Missing <title>'' else t),
             metaDescription := (case dom_metaDescription (pageDom W u) of None \<Rightarrow> [] | Some d \<Rightarrow> d),
             metaTags := (case dom_metaTags (pageDom W u) of None \<Rightarrow> [] | Some m \<Rightarrow> m)\<rparr>)
         s1 = (r2, s2)"
  from inspectImages_result [OF this] inspectImages_reconciled [OF this]
  show "\<not> isDocumentUrl W (url (r2\<lparr>links := new, documentLinks := Some (filter (isDocumentUrl W) ls)\<rparr>)) \<longrightarrow>
           (\<forall>st images. response (goto W (url (r2\<lparr>links := new, documentLinks := Some (filter (isDocumentUrl W) ls)\<rparr>))) = Resolved st \<longrightarrow>
              dom_images (pageDom W (url (r2\<lparr>links := new, documentLinks := Some (filter (isDocumentUrl W) ls)\<rparr>))) = Some images \<longrightarrow>
              reconciled images (imagesAnalysis (r2\<lparr>links := new, documentLinks := Some (filter (isDocumentUrl W) ls)\<rparr>)))"
    by simp
qed simp_all

lemma verifiedAgainst_skipped:
  assumes "\<not> (src d \<noteq> [] \<and> \<not> prefix ''data:'' (src d))"
  shows "verifiedAgainst W c d = (verifiedExists d = None)"
  using assms unfolding verifiedAgainst_def by (rule if_not_P)

lemma verifiedAgainst_checked:
  assumes "src d \<noteq> [] \<and> \<not> prefix ''data:'' (src d)"
  shows "verifiedAgainst W c d =
     (case c (normalizeImageUrl W (src d)) of None \<Rightarrow> False
      | Some e \<Rightarrow> verifiedExists d = Some (exists e))"
  using assms unfolding verifiedAgainst_def by (rule if_P)

lemma verifiedAgainst_mono:
  assumes "verifiedAgainst W c d" "\<forall>k e. c k = Some e \<longrightarrow> c' k = Some e"
  shows "verifiedAgainst W c' d"
proof (cases "src d \<noteq> [] \<and> \<not> prefix ''data:'' (src d)")
  case False
  from assms(1) show ?thesis unfolding verifiedAgainst_skipped [OF False] .
next
  case True
  with assms(1) obtain e where e: "c (normalizeImageUrl W (src d)) = Some e"
    "verifiedExists d = Some (exists e)"
    unfolding verifiedAgainst_checked [OF True]
    by (cases "c (normalizeImageUrl W (src d))") simp_all
  from e(1) assms(2) have "c' (normalizeImageUrl W (src d)) = Some e" by blast
  with e(2) show ?thesis unfolding verifiedAgainst_checked [OF True] by simp
qed

lemma downgrade_keeps:
  "downgrade ex i a = (i', a') \<Longrightarrow>
     src i' = src i \<and> verifiedExists i' = verifiedExists i \<and> cachedCheck i' = cachedCheck i"
  by (auto simp: downgrade_def split: if_splits)

lemma verifyImage_verified:
  assumes v: "verifyImage W p i a s = (i', a', s')" and n: "verifiedExists i = None"
  shows "verifiedAgainst W (checkedImages s') i'"
proof (cases "src i \<noteq> [] \<and> \<not> prefix ''data:'' (src i)")
  case False
  with v have "i' = i" by (auto simp: verifyImage_def)
  with n show ?thesis by (simp add: verifiedAgainst_skipped [OF False])
next
  case True
  show ?thesis
  proof (cases "checkedImages s (normalizeImageUrl W (src i))")
    case (Some e)
    with True v have d: "downgrade (exists e) (i\<lparr>verifiedExists := Some (exists e), cachedCheck := Some True\<rparr>) a = (i', a')"
      and s': "s' = s"
      by (auto simp: verifyImage_def split: prod.splits)
    from downgrade_keeps [OF d] have k: "src i' = src i" "verifiedExists i' = Some (exists e)" by simp_all
    from True k(1) have "src i' \<noteq> [] \<and> \<not> prefix ''data:'' (src i')" by simp
    from verifiedAgainst_checked [OF this] Some s' k show ?thesis by simp
  next
    case None
    with True v obtain ex where c: "checkImageExists W p (src i) s = (ex, s')"
      and d: "downgrade ex (i\<lparr>verifiedExists := Some ex, cachedCheck := Some False\<rparr>) a = (i', a')"
      by (auto simp: verifyImage_def split: prod.splits)
    from checkImageExists_miss [OF None c] obtain e where
      e: "checkedImages s' (normalizeImageUrl W (src i)) = Some e" "exists e = ex"
      by auto
    from downgrade_keeps [OF d] have k: "src i' = src i" "verifiedExists i' = Some ex" by simp_all
    from True k(1) have "src i' \<noteq> [] \<and> \<not> prefix ''data:'' (src i')" by simp
    from verifiedAgainst_checked [OF this] e k show ?thesis by simp
  qed
qed

lemma verifyImages_verified:
  assumes "verifyImages W p ds a s = (ds', a', s')" "\<forall>d\<in>set ds. verifiedExists d = None"
  shows "\<forall>d\<in>set ds'. verifiedAgainst W (checkedImages s') d"
  using assms
proof (induction ds arbitrary: a s ds' a' s')
  case Nil
  then show ?case by simp
next
  case (Cons i ds)
  obtain i1 a1 s1 where one: "verifyImage W p i a s = (i1, a1, s1)"
    by (cases "verifyImage W p i a s") auto
  obtain ds2 a2 s2 where two: "verifyImages W p ds a1 s1 = (ds2, a2, s2)"
    by (cases "verifyImages W p ds a1 s1") auto
  from Cons.prems(1) one two have eq: "ds' = i1 # ds2" "s' = s2" by simp_all
  from Cons.prems(2) have n: "verifiedExists i = None" "\<forall>d\<in>set ds. verifiedExists d = None"
    by simp_all
  from verifyImages_cache [OF two]
  have grow: "\<forall>k e. checkedImages s1 k = Some e \<longrightarrow> checkedImages s2 k = Some e" by simp
  from verifyImage_verified [OF one n(1)] grow
  have "verifiedAgainst W (checkedImages s2) i1" by (rule verifiedAgainst_mono)
  with Cons.IH [OF two n(2)] show ?case unfolding eq by simp
qed

lemma inspectImages_verified:
  assumes "inspectImages W u r s = (r', s')" "details (imagesAnalysis r) = []"
  shows "\<forall>d\<in>set (details (imagesAnalysis r')). verifiedAgainst W (checkedImages s') d"
proof (cases "dom_images (pageDom W u)")
  case None
  with assms show ?thesis by (simp add: inspectImages_def)
next
  case (Some images)
  let ?A = "analyseImages images"
  obtain ds a s2 where v: "verifyImages W u (details ?A) ?A s = (ds, a, s2)"
    by (cases "verifyImages W u (details ?A) ?A s") auto
  with Some assms(1) have r': "details (imagesAnalysis r') = ds" "s' = s2"
    by (auto simp: inspectImages_def)
  from analyseImage_fold [of "\<lparr>total' = int (length images), working = 0, broken = 0, withAlt = 0,
        withoutAlt = 0, details = []\<rparr>" images]
  have "\<forall>d\<in>set (details ?A). verifiedExists d = None"
    by (auto simp: analyseImages_def)
  from verifyImages_verified [OF v this] show ?thesis unfolding r' .
qed

lemma checkDocumentUrl_images:
  "imagesAnalysis (snd (checkDocumentUrl W u r)) = imagesAnalysis r"
  by (simp add: checkDocumentUrl_def Let_def split: GotoResult.splits option.splits)

lemma reachable_verified:
  assumes "reachable W s"
  shows "\<forall>r\<in>set (results s). \<forall>d\<in>set (details (imagesAnalysis r)).
           verifiedAgainst W (checkedImages s) d"
  using assms
proof (induction rule: reachable.induct)
  case start
  show ?case by (simp add: initialState_def)
next
  case (step s s')
  from step.hyps(2) obtain u rest where q: "queue s = u # rest" by (cases "queue s") auto
  from crawlStep_cache [OF q step.hyps(3)]
  have grow: "\<forall>k e. checkedImages s k = Some e \<longrightarrow> checkedImages s' k = Some e" by simp
  have old: "\<forall>d\<in>set (details (imagesAnalysis x)). verifiedAgainst W (checkedImages s') d"
    if "x \<in> set (dispatch evs (results s))" for x evs
  proof -
    from dispatch_mem [OF that] obtain r where r: "r \<in> set (results s)"
      "x = r \<or> x = deliver evs r" by blast
    then have "imagesAnalysis x = imagesAnalysis r" by auto
    with step.IH r(1) grow show ?thesis by (auto intro: verifiedAgainst_mono)
  qed
  from q step.hyps(3) show ?case
  proof (cases rule: crawlStep_cases)
    case skip
    with step.IH show ?thesis by simp
  next
    case document
    then show ?thesis using old by (auto simp: checkDocumentUrl_images newPageResult_def)
  next
    case (failed message)
    then show ?thesis using old by (auto simp: setupErrorHandling_def newPageResult_def)
  next
    case (loaded st)
    from loaded(4) obtain t ls r2 s2 where
      im: "inspectImages W u
       ((deliver (events (goto W u)) (setupErrorHandling (newPageResult u)))
            \<lparr>loadTime := elapsed (goto W u), statusCode := statusOr200 st,
             title := (if t = [] then warningSign @ '' Missing <title>'' else t),
             metaDescription := (case dom_metaDescription (pageDom W u) of None \<Rightarrow> [] | Some d \<Rightarrow> d),
             metaTags := (case dom_metaTags (pageDom W u) of None \<Rightarrow>
                 metaTags ((deliver (events (goto W u)) (setupErrorHandling (newPageResult u)))
                    \<lparr>loadTime := elapsed (goto W u), statusCode := statusOr200 st\<rparr>) | Some m \<Rightarrow> m)\<rparr>)
         (s\<lparr>queue := rest, visited := insert (normalizeUrl W u) (visited s),
            results := dispatch (events (goto W u)) (results s)\<rparr>) = (r2, s2)"
      and s': "s' = s2\<lparr>queue := snd (snd (partitionLinks W (visited s2) ls ([], [], queue s2))),
            results := dispatch (dom_events (pageDom W u)) (results s2) @
              [deliver (dom_events (pageDom W u))
                 (r2\<lparr>links := fst (partitionLinks W (visited s2) ls ([], [], queue s2)),
                     documentLinks := Some (fst (snd (partitionLinks W (visited s2) ls ([], [], queue s2))))\<rparr>)]\<rparr>"
      by (rule inspectPage_Some) simp
    from inspectImages_frame [OF im]
    have rs: "results s2 = dispatch (events (goto W u)) (results s)" by simp
    from s' have c: "checkedImages s' = checkedImages s2" by simp
    from inspectImages_verified [OF im]
    have new: "\<forall>d\<in>set (details (imagesAnalysis r2)). verifiedAgainst W (checkedImages s') d"
      unfolding c by (simp add: setupErrorHandling_def newPageResult_def)
    have olds: "\<forall>d\<in>set (details (imagesAnalysis x)). verifiedAgainst W (checkedImages s') d"
      if "x \<in> set (dispatch (dom_events (pageDom W u)) (results s2))" for x
    proof -
      from dispatch_mem [OF that] obtain y where y: "y \<in> set (results s2)"
        "x = y \<or> x = deliver (dom_events (pageDom W u)) y" by blast
      then have "imagesAnalysis x = imagesAnalysis y" by auto
      with old [of y "events (goto W u)"] y(1) rs show ?thesis by simp
    qed
    show ?thesis
    proof (intro ballI)
      fix x d assume x: "x \<in> set (results s')" and d: "d \<in> set (details (imagesAnalysis x))"
      from x s' consider "x \<in> set (dispatch (dom_events (pageDom W u)) (results s2))"
        | "imagesAnalysis x = imagesAnalysis r2" by auto
      then show "verifiedAgainst W (checkedImages s') d"
      proof cases
        case 1
        from olds [OF 1] d show ?thesis by blast
      next
        case 2
        with new d show ?thesis by simp
      qed
    qed
  qed
qed


lemma cacheBroken_verified:
  assumes "verifiedAgainst W (checkedImages s) d"
  shows "cacheBroken W s (src d) \<longleftrightarrow> verifiedExists d = Some False"
proof (cases "src d \<noteq> [] \<and> \<not> prefix ''data:'' (src d)")
  case False
  from assms have "verifiedExists d = None" unfolding verifiedAgainst_skipped [OF False] .
  moreover from False have "\<not> cacheBroken W s (src d)" unfolding cacheBroken_def by blast
  ultimately show ?thesis by simp
next
  case True
  from assms obtain e where e: "checkedImages s (normalizeImageUrl W (src d)) = Some e"
    "verifiedExists d = Some (exists e)"
    unfolding verifiedAgainst_checked [OF True]
    by (cases "checkedImages s (normalizeImageUrl W (src d))") simp_all
  from True e(1) have "cacheBroken W s (src d) \<longleftrightarrow> \<not> exists e" unfolding cacheBroken_def by simp
  with e(2) show ?thesis by auto
qed

lemma list_all2_right:
  "list_all2 P xs ys \<Longrightarrow> \<forall>y\<in>set ys. R y \<Longrightarrow> list_all2 (\<lambda>x y. P x y \<and> R y) xs ys"
  by (induction rule: list_all2_induct) auto

lemma filter_zip_left:
  "list_all2 (\<lambda>x y. P x y \<longleftrightarrow> Q x) xs ys \<Longrightarrow>
     length (filter (\<lambda>(x, y). P x y) (zip xs ys)) = length (filter Q xs)"
  by (induction rule: list_all2_induct) auto

text \<open>
  Claim C3.  Take a result of a run for an HTML page whose navigation resolved and whose
  image analysis returned the elements \<open>images\<close>.  Its details list those elements in
  order.  Whenever the browser reported an element working and the cache, as it is in the
  state of the run, holds \<open>exists = False\<close> for the element's image identity (the
  source being one the verification loop looks at: not empty, no \<^verbatim>\<open>data:\<close> URL), the
  entry is recorded with \<open>isWorking = False\<close> and \<open>verifiedExists = False\<close>, whether the
  entry of the cache was written for this page or for an earlier one.  An entry is
  recorded as working exactly when the browser reported it working and the cache does
  not say so: nothing the browser reported broken is upgraded.  The \<open>working\<close> counter is
  the number of elements the browser reported working minus the number of those the
  cache says do not exist, and \<open>broken\<close> is the number the browser reported broken plus
  that number.
\<close>

theorem reconciliation:
  "(crawlAndTest n W = Finished s \<or> crawlAndTest n W = Running s) \<and> r \<in> set (results s)
     \<and> \<not> isDocumentUrl W (url r) \<and> response (goto W (url r)) = Resolved st
     \<and> dom_images (pageDom W (url r)) = Some images
   \<longrightarrow> length (details (imagesAnalysis r)) = length images
      \<and> (\<forall>i<length images.
            src (details (imagesAnalysis r) ! i) = img_src (images ! i)
            \<and> (browserWorking (images ! i) \<and> cacheBroken W s (img_src (images ! i))
                 \<longrightarrow> \<not> isWorking (details (imagesAnalysis r) ! i)
                     \<and> verifiedExists (details (imagesAnalysis r) ! i) = Some False)
            \<and> (isWorking (details (imagesAnalysis r) ! i)
                 \<longleftrightarrow> browserWorking (images ! i) \<and> \<not> cacheBroken W s (img_src (images ! i))))
      \<and> working (imagesAnalysis r)
          = int (length (filter browserWorking images))
            - int (length (filter (\<lambda>img. browserWorking img \<and> cacheBroken W s (img_src img)) images))
      \<and> broken (imagesAnalysis r)
          = int (length (filter (\<lambda>img. \<not> browserWorking img) images))
            + int (length (filter (\<lambda>img. browserWorking img \<and> cacheBroken W s (img_src img)) images))"
proof
  let ?ds = "details (imagesAnalysis r)"
  assume a: "(crawlAndTest n W = Finished s \<or> crawlAndTest n W = Running s) \<and> r \<in> set (results s)
     \<and> \<not> isDocumentUrl W (url r) \<and> response (goto W (url r)) = Resolved st
     \<and> dom_images (pageDom W (url r)) = Some images"
  then have reach: "reachable W s" by (blast intro: crawlAndTest_reachable)
  from reachable_reconciled [OF reach] a have rec: "reconciled images (imagesAnalysis r)" by blast
  from reachable_verified [OF reach] a
  have ver: "\<forall>d\<in>set ?ds. verifiedAgainst W (checkedImages s) d" by blast
  from rec have l: "list_all2 (\<lambda>img d. src d = img_src img
                   \<and> (isWorking d \<longleftrightarrow> browserWorking img \<and> verifiedExists d \<noteq> Some False))
        images ?ds"
    by (simp add: reconciled_def)
  have l2: "list_all2 (\<lambda>img d. src d = img_src img
                   \<and> (isWorking d \<longleftrightarrow> browserWorking img \<and> \<not> cacheBroken W s (img_src img))
                   \<and> (cacheBroken W s (img_src img) \<longleftrightarrow> verifiedExists d = Some False))
        images ?ds"
  proof (rule list_all2_mono [OF list_all2_right [OF l ver]])
    fix img d
    assume "(src d = img_src img
         \<and> (isWorking d \<longleftrightarrow> browserWorking img \<and> verifiedExists d \<noteq> Some False))
         \<and> verifiedAgainst W (checkedImages s) d"
    then have s: "src d = img_src img"
      and w: "isWorking d \<longleftrightarrow> browserWorking img \<and> verifiedExists d \<noteq> Some False"
      and v: "verifiedAgainst W (checkedImages s) d" by blast+
    from cacheBroken_verified [OF v] s
    have "cacheBroken W s (img_src img) \<longleftrightarrow> verifiedExists d = Some False" by simp
    with s w show "src d = img_src img
        \<and> (isWorking d \<longleftrightarrow> browserWorking img \<and> \<not> cacheBroken W s (img_src img))
        \<and> (cacheBroken W s (img_src img) \<longleftrightarrow> verifiedExists d = Some False)" by blast
  qed
  from l have len: "length ?ds = length images" by (simp add: list_all2_lengthD)
  from l2 have nth: "\<forall>i<length images.
            src (?ds ! i) = img_src (images ! i)
            \<and> (browserWorking (images ! i) \<and> cacheBroken W s (img_src (images ! i))
                 \<longrightarrow> \<not> isWorking (?ds ! i) \<and> verifiedExists (?ds ! i) = Some False)
            \<and> (isWorking (?ds ! i)
                 \<longleftrightarrow> browserWorking (images ! i) \<and> \<not> cacheBroken W s (img_src (images ! i)))"
    by (simp add: list_all2_conv_all_nth)
  have "list_all2 (\<lambda>img d. (browserWorking img \<and> verifiedExists d = Some False)
            \<longleftrightarrow> (browserWorking img \<and> cacheBroken W s (img_src img))) images ?ds"
    by (rule list_all2_mono [OF l2]) blast
  from filter_zip_left [OF this]
  have dg: "downgrades images ?ds
      = length (filter (\<lambda>img. browserWorking img \<and> cacheBroken W s (img_src img)) images)"
    by (simp add: downgrades_def)
  from rec have cnt: "working (imagesAnalysis r)
          = int (length (filter browserWorking images)) - int (downgrades images ?ds)"
    "broken (imagesAnalysis r)
          = int (length (filter (\<lambda>img. \<not> browserWorking img) images)) + int (downgrades images ?ds)"
    by (simp_all add: reconciled_def)
  from len nth cnt
  show "length ?ds = length images
      \<and> (\<forall>i<length images.
            src (?ds ! i) = img_src (images ! i)
            \<and> (browserWorking (images ! i) \<and> cacheBroken W s (img_src (images ! i))
                 \<longrightarrow> \<not> isWorking (?ds ! i) \<and> verifiedExists (?ds ! i) = Some False)
            \<and> (isWorking (?ds ! i)
                 \<longleftrightarrow> browserWorking (images ! i) \<and> \<not> cacheBroken W s (img_src (images ! i))))
      \<and> working (imagesAnalysis r)
          = int (length (filter browserWorking images))
            - int (length (filter (\<lambda>img. browserWorking img \<and> cacheBroken W s (img_src img)) images))
      \<and> broken (imagesAnalysis r)
          = int (length (filter (\<lambda>img. \<not> browserWorking img) images))
            + int (length (filter (\<lambda>img. browserWorking img \<and> cacheBroken W s (img_src img)) images))"
    unfolding dg by simp
qed


theorem reconciliation_witness:
  "\<exists>s r. crawlAndTest 5 siteWeb = Finished s \<and> r \<in> set (results s)
     \<and> url r = ''https://x.com/about''
     \<and> headRequests s = [''https://x.com/logo.png'', ''https://x.com/gone.png?v=1'']
     \<and> map cachedCheck (details (imagesAnalysis r)) = [Some True, Some True]
     \<and> cacheBroken siteWeb s ''https://x.com/gone.png?v=2''
     \<and> \<not> isWorking (details (imagesAnalysis r) ! 1)
     \<and> isWorking (details (imagesAnalysis r) ! 0)
     \<and> working (imagesAnalysis r) = 1 \<and> broken (imagesAnalysis r) = 1"
proof -
  define about where "about = ''https://x.com/about''"
  define logo where "logo = ''https://x.com/logo.png?v=2''"
  define gone where "gone = ''https://x.com/gone.png?v=2''"
  define images where "images = [img logo ''logo'', img gone ''team'']"
  from siteWeb_run obtain s where s: "crawlAndTest 5 siteWeb = Finished s"
    "map url (results s) = [''https://x.com'', about, ''https://x.com/slow'']"
    "headRequests s = [''https://x.com/logo.png'', ''https://x.com/gone.png?v=1'']"
    "map (\<lambda>r. map cachedCheck (details (imagesAnalysis r))) (results s)
            = [[Some False, Some False, None], [Some True, Some True], []]"
    "map_option exists (checkedImages s ''https://x.com/gone.png'') = Some False"
    "map (\<lambda>r. map verifiedExists (details (imagesAnalysis r))) (results s)
            = [[Some True, Some False, None], [Some True, Some False], []]"
    unfolding about_def by (cases "crawlAndTest 5 siteWeb") auto
  from s(2) obtain r0 r r2 where rs: "results s = [r0, r, r2]" by auto
  with s(2,4,6) have r: "r \<in> set (results s)" "url r = about"
    "map cachedCheck (details (imagesAnalysis r)) = [Some True, Some True]"
    "map verifiedExists (details (imagesAnalysis r)) = [Some True, Some False]"
    by simp_all
  have idg: "normalizeImageUrl siteWeb gone = ''https://x.com/gone.png''"
    unfolding gone_def by code_simp
  have gsrc: "gone \<noteq> [] \<and> \<not> prefix ''data:'' gone" unfolding gone_def by simp
  from s(5) obtain e where e: "checkedImages s ''https://x.com/gone.png'' = Some e" "\<not> exists e"
    by auto
  with idg gsrc have cb: "cacheBroken siteWeb s gone" by (simp add: cacheBroken_def)
  from r(4) obtain d0 d1 where d: "details (imagesAnalysis r) = [d0, d1]"
    "verifiedExists d0 = Some True" "verifiedExists d1 = Some False" by auto
  have nd: "\<not> isDocumentUrl siteWeb about" unfolding about_def by code_simp
  have nav: "response (goto siteWeb about) = Resolved (Some 200)"
    by (simp add: siteWeb_def loadedIn_def about_def)
  have im: "dom_images (pageDom siteWeb about) = Some images"
    by (simp add: siteWeb_def about_def images_def logo_def gone_def)
  have bw: "browserWorking (img logo ''logo'')" "browserWorking (img gone ''team'')"
    "img_src (img logo ''logo'') = logo" "img_src (img gone ''team'') = gone"
    by (simp_all add: img_def browserWorking_def)
  note T = reconciliation [where n = 5 and W = siteWeb and s = s and r = r and st = "Some 200"
      and images = images]
  from T s(1) r(1,2) nd nav im have
    1: "\<forall>i<length images.
            src (details (imagesAnalysis r) ! i) = img_src (images ! i)
            \<and> (browserWorking (images ! i) \<and> cacheBroken siteWeb s (img_src (images ! i))
                 \<longrightarrow> \<not> isWorking (details (imagesAnalysis r) ! i)
                     \<and> verifiedExists (details (imagesAnalysis r) ! i) = Some False)
            \<and> (isWorking (details (imagesAnalysis r) ! i)
                 \<longleftrightarrow> browserWorking (images ! i) \<and> \<not> cacheBroken siteWeb s (img_src (images ! i)))"
    and 2: "working (imagesAnalysis r)
          = int (length (filter browserWorking images))
            - int (length (filter (\<lambda>img. browserWorking img \<and> cacheBroken siteWeb s (img_src img)) images))"
    and 3: "broken (imagesAnalysis r)
          = int (length (filter (\<lambda>img. \<not> browserWorking img) images))
            + int (length (filter (\<lambda>img. browserWorking img \<and> cacheBroken siteWeb s (img_src img)) images))"
    by simp_all
  have len: "(0::nat) < length images" "(1::nat) < length images" by (simp_all add: images_def)
  from 1 len(2) have "isWorking (details (imagesAnalysis r) ! 1)
      \<longleftrightarrow> browserWorking (images ! 1) \<and> \<not> cacheBroken siteWeb s (img_src (images ! 1))"
    by blast
  with bw cb have nw: "\<not> isWorking (details (imagesAnalysis r) ! 1)" by (simp add: images_def)
  from 1 len(1) have w0: "isWorking (details (imagesAnalysis r) ! 0)
      \<longleftrightarrow> browserWorking (images ! 0) \<and> \<not> cacheBroken siteWeb s (img_src (images ! 0))
         \<and> (cacheBroken siteWeb s (img_src (images ! 0))
              \<longrightarrow> verifiedExists (details (imagesAnalysis r) ! 0) = Some False)"
    using bw by (auto simp: images_def)
  have ncb: "\<not> cacheBroken siteWeb s logo"
  proof
    assume "cacheBroken siteWeb s logo"
    with 1 len(1) bw have "verifiedExists (details (imagesAnalysis r) ! 0) = Some False"
      by (auto simp: images_def)
    with d show False by simp
  qed
  with w0 bw have w: "isWorking (details (imagesAnalysis r) ! 0)" by (simp add: images_def)
  from 2 3 bw cb ncb have cnt: "working (imagesAnalysis r) = 1" "broken (imagesAnalysis r) = 1"
    by (simp_all add: images_def)
  from s(1,3) r(1,2,3) cb nw w cnt show ?thesis unfolding about_def gone_def
    by (intro exI [of _ s] exI [of _ r]) simp
qed

lemma failureRecorded_deliver: "failureRecorded W r \<Longrightarrow> failureRecorded W (deliver evs r)"
  using deliver_jsErrors [of r evs] by (auto simp: failureRecorded_def)

lemma reachable_failed:
  assumes "reachable W s"
  shows "\<forall>r\<in>set (results s). \<not> isDocumentUrl W (url r) \<longrightarrow> failureRecorded W r"
  using _ _ _ _ assms
proof (rule reachable_results)
  fix evs and r :: PageResult
  assume "\<not> isDocumentUrl W (url r) \<longrightarrow> failureRecorded W r"
  then show "\<not> isDocumentUrl W (url (deliver evs r)) \<longrightarrow> failureRecorded W (deliver evs r)"
    by (simp add: failureRecorded_deliver)
next
  fix r2 :: PageResult and u st t ls s1 s2 new
  assume "response (goto W u) = Resolved st"
    and "inspectImages W u
         ((deliver (events (goto W u)) (setupErrorHandling (newPageResult u)))
            \<lparr>loadTime := elapsed (goto W u), statusCode := statusOr200 st,
             title := (if t = [] then warningSign @ '' Missing <title>'' else t),
             metaDescription := (case dom_metaDescription (pageDom W u) of None \<Rightarrow> [] | Some d \<Rightarrow> d),
             metaTags := (case dom_metaTags (pageDom W u) of None \<Rightarrow> [] | Some m \<Rightarrow> m)\<rparr>)
         s1 = (r2, s2)"
  from this(1) inspectImages_result [OF this(2)]
  show "\<not> isDocumentUrl W (url (r2\<lparr>links := new, documentLinks := Some (filter (isDocumentUrl W) ls)\<rparr>))
          \<longrightarrow> failureRecorded W (r2\<lparr>links := new, documentLinks := Some (filter (isDocumentUrl W) ls)\<rparr>)"
    by (simp add: failureRecorded_def)
next
  fix u message
  assume "response (goto W u) = Rejected message"
  then show "\<not> isDocumentUrl W (url ((deliver (events (goto W u)) (setupErrorHandling (newPageResult u)))
            \<lparr>jsErrors := jsErrors (deliver (events (goto W u)) (setupErrorHandling (newPageResult u)))
                           @ [''Page failed to load: '' @ message],
             loadTime := elapsed (goto W u)\<rparr>))
       \<longrightarrow> failureRecorded W ((deliver (events (goto W u)) (setupErrorHandling (newPageResult u)))
            \<lparr>jsErrors := jsErrors (deliver (events (goto W u)) (setupErrorHandling (newPageResult u)))
                           @ [''Page failed to load: '' @ message],
             loadTime := elapsed (goto W u)\<rparr>)"
    by (simp add: failureRecorded_def setupErrorHandling_def newPageResult_def)
qed simp

lemma failWeb_run:
  "(case crawlAndTest 1 failWeb of
      Finished s \<Rightarrow>
        map url (results s) = [''https://x.com'']
        \<and> map loadTime (results s) = [30000]
        \<and> map consoleErrors (results s) = [[''boom'']]
        \<and> map jsErrors (results s) = [[''Page failed to load: Timeout 30000ms exceeded.'']]
    | _ \<Rightarrow> False)"
  by code_simp

text \<open>
  Claim C9, as stated, fails on the result of a rejected navigation: \<open>loadTime\<close> is set
  to the time the navigation took, and the console error logged before the time-out is
  in \<open>consoleErrors\<close>; neither field has the value \<open>newPageResult\<close> gave it.
\<close>

theorem navigation_failure_counterexample:
  "\<exists>s r. crawlAndTest 1 failWeb = Finished s \<and> results s = [r]
     \<and> response (goto failWeb (url r)) = Rejected ''Timeout 30000ms exceeded.''
     \<and> loadTime r = 30000 \<and> loadTime (newPageResult (url r)) = 0
     \<and> consoleErrors r = [''boom''] \<and> consoleErrors (newPageResult (url r)) = []"
proof -
  from failWeb_run obtain s where s: "crawlAndTest 1 failWeb = Finished s"
    "map url (results s) = [''https://x.com'']" "map loadTime (results s) = [30000]"
    "map consoleErrors (results s) = [[''boom'']]"
    by (cases "crawlAndTest 1 failWeb") auto
  from s(2) obtain r where r: "results s = [r]" by (cases "results s") auto
  have "response (goto failWeb (url r)) = Rejected ''Timeout 30000ms exceeded.''"
    by (simp add: failWeb_def)
  with s r show ?thesis
    by (intro exI [of _ s] exI [of _ r]) (simp add: newPageResult_def)
qed


lemma crawlStep_failed:
  assumes "queue t = u # rest" "normalizeUrl W u \<notin> visited t" "\<not> isDocumentUrl W u"
    "response (goto W u) = Rejected message"
  shows "\<exists>t' r. crawlStep W t = Some t'
     \<and> results t' = dispatch (events (goto W u)) (results t) @ [r]
     \<and> url r = u \<and> (''Page failed to load: '' @ message) \<in> set (jsErrors r)
     \<and> loadTime r = elapsed (goto W u) \<and> links r = [] \<and> documentLinks r = None
     \<and> queue t' = rest \<and> visited t' = insert (normalizeUrl W u) (visited t)"
proof -
  let ?p = "deliver (events (goto W u)) (setupErrorHandling (newPageResult u))"
  let ?r = "?p\<lparr>jsErrors := jsErrors ?p @ [''Page failed to load: '' @ message],
               loadTime := elapsed (goto W u)\<rparr>"
  let ?t = "t\<lparr>queue := rest, visited := insert (normalizeUrl W u) (visited t),
              results := dispatch (events (goto W u)) (results t) @ [?r]\<rparr>"
  from assms have "crawlStep W t = Some ?t" by (simp add: crawlStep_def Let_def)
  moreover have "url ?r = u" "links ?r = []" "documentLinks ?r = None"
    "loadTime ?r = elapsed (goto W u)"
    "(''Page failed to load: '' @ message) \<in> set (jsErrors ?r)"
    by (simp_all add: setupErrorHandling_def newPageResult_def)
  ultimately show ?thesis by (intro exI [of _ ?t] exI [of _ ?r]) simp
qed

text \<open>
  Claim C9, amended.  A rejected HTML navigation does not end the crawl: the round
  returns a state, the target's identity is visited, and the queue is the rest of the
  queue, so the page contributes no entries.  In a run that has reached a state whose
  next target is such a page, the run with one more round of fuel reaches the state
  this round returns, and its results are the earlier ones (after the listeners have
  seen the events of the navigation) followed by one result for the target, which has
  the failure message in \<open>jsErrors\<close>, the elapsed time in \<open>loadTime\<close>, no links and no
  document links.  In every state of a run, the result of such a target has the
  failure message in \<open>jsErrors\<close>, the elapsed time in \<open>loadTime\<close>, and the values of a
  new \<^verbatim>\<open>pageResult\<close> in every field other than \<open>url\<close> and the lists the listeners fill
  (\<open>jsErrors\<close>, \<open>consoleErrors\<close>, \<open>benignErrors\<close>, \<open>networkErrors\<close>, \<open>warnings\<close>).  Its
  identity stays visited, is not in the queue, and belongs to no other result: the
  target is not retried.
\<close>

theorem navigation_failure:
  "(queue t = u # rest \<and> \<not> isDocumentUrl W u \<and> response (goto W u) = Rejected message \<longrightarrow>
      (\<exists>t'. crawlStep W t = Some t' \<and> queue t' = rest \<and> normalizeUrl W u \<in> visited t'))
   \<and> (crawlAndTest n W = Running t \<and> queue t = u # rest \<and> \<not> isDocumentUrl W u
        \<and> response (goto W u) = Rejected message \<longrightarrow>
      (\<exists>t' r. (crawlAndTest (Suc n) W = Finished t' \<or> crawlAndTest (Suc n) W = Running t')
         \<and> crawlStep W t = Some t'
         \<and> results t' = dispatch (events (goto W u)) (results t) @ [r]
         \<and> url r = u \<and> (''Page failed to load: '' @ message) \<in> set (jsErrors r)
         \<and> loadTime r = elapsed (goto W u) \<and> links r = [] \<and> documentLinks r = None
         \<and> queue t' = rest \<and> visited t' = insert (normalizeUrl W u) (visited t)))
   \<and> ((crawlAndTest n W = Finished s \<or> crawlAndTest n W = Running s) \<and> r \<in> set (results s)
        \<and> \<not> isDocumentUrl W (url r) \<and> response (goto W (url r)) = Rejected message \<longrightarrow>
      (''Page failed to load: '' @ message) \<in> set (jsErrors r)
      \<and> loadTime r = elapsed (goto W (url r))
      \<and> title r = [] \<and> metaDescription r = [] \<and> brokenImages r = [] \<and> allImages r = []
      \<and> imagesAnalysis r = imagesAnalysis (newPageResult (url r))
      \<and> links r = [] \<and> statusCode r = 200 \<and> metaTags r = []
      \<and> \<not> isDocument r \<and> documentType r = [] \<and> documentStatus r = []
      \<and> documentLinks r = None
      \<and> normalizeUrl W (url r) \<in> visited s
      \<and> (\<forall>q\<in>set (queue s). normalizeUrl W q \<noteq> normalizeUrl W (url r))
      \<and> (\<forall>r'\<in>set (results s). normalizeUrl W (url r') = normalizeUrl W (url r) \<longrightarrow> r' = r))"
proof (intro conjI; rule impI)
  assume a: "queue t = u # rest \<and> \<not> isDocumentUrl W u \<and> response (goto W u) = Rejected message"
  show "\<exists>t'. crawlStep W t = Some t' \<and> queue t' = rest \<and> normalizeUrl W u \<in> visited t'"
  proof (cases "normalizeUrl W u \<in> visited t")
    case True
    with a show ?thesis by (simp add: crawlStep_def)
  next
    case False
    with a show ?thesis by (simp add: crawlStep_def Let_def)
  qed
next
  assume a: "crawlAndTest n W = Running t \<and> queue t = u # rest \<and> \<not> isDocumentUrl W u
        \<and> response (goto W u) = Rejected message"
  then have run: "crawlAndTest n W = Finished t \<or> crawlAndTest n W = Running t" by simp
  then have re: "reachable W t" by (rule crawlAndTest_reachable)
  from a have q: "queue t = u # rest" by simp
  from re q have nv: "normalizeUrl W u \<notin> visited t" by (rule reachable_head_unvisited)
  from a have nd: "\<not> isDocumentUrl W u" and rj: "response (goto W u) = Rejected message"
    by simp_all
  from crawlStep_failed [OF q nv nd rj] obtain t' r where
    t': "crawlStep W t = Some t'"
    and r: "results t' = dispatch (events (goto W u)) (results t) @ [r]"
      "url r = u" "(''Page failed to load: '' @ message) \<in> set (jsErrors r)"
      "loadTime r = elapsed (goto W u)" "links r = []" "documentLinks r = None"
      "queue t' = rest" "visited t' = insert (normalizeUrl W u) (visited t)"
    by blast
  from run have "crawlLoop (n + 1) W (initialState W) = crawlLoop 1 W t"
    unfolding crawlAndTest_def by (rule crawlLoop_split)
  with q t' have "crawlAndTest (Suc n) W = crawlLoop 0 W t'"
    by (simp add: crawlAndTest_def)
  then have "crawlAndTest (Suc n) W = Finished t' \<or> crawlAndTest (Suc n) W = Running t'"
    by simp
  with t' r
  show "\<exists>t' r. (crawlAndTest (Suc n) W = Finished t' \<or> crawlAndTest (Suc n) W = Running t')
         \<and> crawlStep W t = Some t'
         \<and> results t' = dispatch (events (goto W u)) (results t) @ [r]
         \<and> url r = u \<and> (''Page failed to load: '' @ message) \<in> set (jsErrors r)
         \<and> loadTime r = elapsed (goto W u) \<and> links r = [] \<and> documentLinks r = None
         \<and> queue t' = rest \<and> visited t' = insert (normalizeUrl W u) (visited t)"
    by (intro exI [of _ t'] exI [of _ r]) simp
next
  assume a: "(crawlAndTest n W = Finished s \<or> crawlAndTest n W = Running s) \<and> r \<in> set (results s)
        \<and> \<not> isDocumentUrl W (url r) \<and> response (goto W (url r)) = Rejected message"
  then have re: "reachable W s" by (blast intro: crawlAndTest_reachable)
  from reachable_failed [OF re] a have f: "failureRecorded W r" by blast
  from reachable_visit_inv [OF re] have inv:
    "\<forall>q\<in>set (queue s). normalizeUrl W q \<notin> visited s"
    "visited s = set (map (normalizeUrl W) (map url (results s)))"
    "distinct (map (normalizeUrl W) (map url (results s)))"
    by blast+
  from inv(2) a have v: "normalizeUrl W (url r) \<in> visited s" by auto
  with inv(1) have qs: "\<forall>q\<in>set (queue s). normalizeUrl W q \<noteq> normalizeUrl W (url r)" by metis
  from inv(3) have "inj_on (\<lambda>r. normalizeUrl W (url r)) (set (results s))"
    by (simp add: distinct_map comp_def)
  with a have once: "\<forall>r'\<in>set (results s). normalizeUrl W (url r') = normalizeUrl W (url r) \<longrightarrow> r' = r"
    by (auto dest: inj_onD)
  from f a v qs once
  show "(''Page failed to load: '' @ message) \<in> set (jsErrors r)
      \<and> loadTime r = elapsed (goto W (url r))
      \<and> title r = [] \<and> metaDescription r = [] \<and> brokenImages r = [] \<and> allImages r = []
      \<and> imagesAnalysis r = imagesAnalysis (newPageResult (url r))
      \<and> links r = [] \<and> statusCode r = 200 \<and> metaTags r = []
      \<and> \<not> isDocument r \<and> documentType r = [] \<and> documentStatus r = []
      \<and> documentLinks r = None
      \<and> normalizeUrl W (url r) \<in> visited s
      \<and> (\<forall>q\<in>set (queue s). normalizeUrl W q \<noteq> normalizeUrl W (url r))
      \<and> (\<forall>r'\<in>set (results s). normalizeUrl W (url r') = normalizeUrl W (url r) \<longrightarrow> r' = r)"
    unfolding failureRecorded_def by simp
qed

theorem navigation_failure_witness:
  "(\<exists>t'. crawlStep failWeb (initialState failWeb) = Some t' \<and> queue t' = []
          \<and> normalizeUrl failWeb ''https://x.com'' \<in> visited t')
   \<and> crawlAndTest 0 failWeb = Running (initialState failWeb)
   \<and> (\<exists>t' r. crawlAndTest 1 failWeb = Finished t' \<and> results t' = [r]
          \<and> url r = ''https://x.com''
          \<and> ''Page failed to load: Timeout 30000ms exceeded.'' \<in> set (jsErrors r)
          \<and> loadTime r = 30000 \<and> links r = [] \<and> documentLinks r = None \<and> queue t' = [])
   \<and> (\<exists>s r. crawlAndTest 5 siteWeb = Finished s \<and> r \<in> set (results s)
          \<and> url r = ''https://x.com/slow''
          \<and> ''Page failed to load: Timeout 30000ms exceeded.'' \<in> set (jsErrors r)
          \<and> loadTime r = 30000 \<and> links r = [] \<and> documentLinks r = None)"
proof (intro conjI)
  define home where "home = ''https://x.com''"
  define msg where "msg = ''Timeout 30000ms exceeded.''"
  have q: "queue (initialState failWeb) = home # []" by (simp add: initialState_def failWeb_def home_def)
  have nd: "\<not> isDocumentUrl failWeb home" unfolding home_def by code_simp
  have rj: "response (goto failWeb home) = Rejected msg" by (simp add: failWeb_def msg_def)
  from navigation_failure [where t = "initialState failWeb" and u = home and rest = "[]"
      and W = failWeb and message = msg] q nd rj
  have "\<exists>t'. crawlStep failWeb (initialState failWeb) = Some t' \<and> queue t' = []
          \<and> normalizeUrl failWeb home \<in> visited t'"
    by blast
  then show "\<exists>t'. crawlStep failWeb (initialState failWeb) = Some t' \<and> queue t' = []
          \<and> normalizeUrl failWeb ''https://x.com'' \<in> visited t'"
    unfolding home_def .
  show run0: "crawlAndTest 0 failWeb = Running (initialState failWeb)"
    by (simp add: crawlAndTest_def initialState_def)
  have el: "elapsed (goto failWeb home) = 30000" "events (goto failWeb home) = [ConsoleMessage ''error'' ''boom'']"
    by (simp_all add: failWeb_def)
  have r0: "results (initialState failWeb) = []" by (simp add: initialState_def)
  from navigation_failure [where t = "initialState failWeb" and u = home and rest = "[]"
      and W = failWeb and message = msg and n = 0] run0 q nd rj
  obtain t' r where
    t': "crawlAndTest (Suc 0) failWeb = Finished t' \<or> crawlAndTest (Suc 0) failWeb = Running t'"
    and r: "results t' = dispatch (events (goto failWeb home)) (results (initialState failWeb)) @ [r]"
      "url r = home" "(''Page failed to load: '' @ msg) \<in> set (jsErrors r)"
      "loadTime r = elapsed (goto failWeb home)" "links r = []" "documentLinks r = None"
      "queue t' = []"
    by blast
  from t' r(7) have fin: "crawlAndTest 1 failWeb = Finished t'"
    by (cases "crawlAndTest (Suc 0) failWeb") (auto simp: crawlAndTest_def split: if_splits option.splits)
  from r(1) r0 have rs: "results t' = [r]" by (simp add: dispatch_def)
  from fin rs r el
  show "\<exists>t' r. crawlAndTest 1 failWeb = Finished t' \<and> results t' = [r]
          \<and> url r = ''https://x.com''
          \<and> ''Page failed to load: Timeout 30000ms exceeded.'' \<in> set (jsErrors r)
          \<and> loadTime r = 30000 \<and> links r = [] \<and> documentLinks r = None \<and> queue t' = []"
    unfolding home_def msg_def by (intro exI [of _ t'] exI [of _ r]) simp
next
  define slow where "slow = ''https://x.com/slow''"
  define msg where "msg = ''Timeout 30000ms exceeded.''"
  from siteWeb_run obtain s where s: "crawlAndTest 5 siteWeb = Finished s"
    "map url (results s) = [''https://x.com'', ''https://x.com/about'', slow]"
    unfolding slow_def by (cases "crawlAndTest 5 siteWeb") auto
  from s(2) obtain r0 r1 r where rs: "results s = [r0, r1, r]" by auto
  with s(2) have r: "r \<in> set (results s)" "url r = slow" by simp_all
  have nd: "\<not> isDocumentUrl siteWeb slow" unfolding slow_def by code_simp
  have rj: "response (goto siteWeb slow) = Rejected msg" "elapsed (goto siteWeb slow) = 30000"
    by (simp_all add: siteWeb_def msg_def slow_def)
  from navigation_failure [where n = 5 and W = siteWeb and s = s and r = r and message = msg]
    s(1) r nd rj
  have "(''Page failed to load: '' @ msg) \<in> set (jsErrors r)
    \<and> loadTime r = elapsed (goto siteWeb (url r)) \<and> links r = [] \<and> documentLinks r = None"
    by blast
  with rj(2) r(2) have "(''Page failed to load: '' @ msg) \<in> set (jsErrors r)"
    "loadTime r = 30000" "links r = []" "documentLinks r = None"
    by simp_all
  with s(1) r show "\<exists>s r. crawlAndTest 5 siteWeb = Finished s \<and> r \<in> set (results s)
          \<and> url r = ''https://x.com/slow''
          \<and> ''Page failed to load: Timeout 30000ms exceeded.'' \<in> set (jsErrors r)
          \<and> loadTime r = 30000 \<and> links r = [] \<and> documentLinks r = None"
    unfolding slow_def msg_def by (intro exI [of _ s] exI [of _ r]) simp
qed

text \<open>
  Where links go.  Queue entries and result URLs begin with \<open>ROOT\<close>; after the first
  round no queue entry is an asset; only the root can be inspected as a document, and
  then nothing else is; the links of a result begin with \<open>ROOT\<close> and are no assets; its
  document links are assets.
\<close>

lemma reachable_scope:
  "reachable W s \<Longrightarrow>
     (\<forall>q\<in>set (queue s). prefix (ROOT W) q)
     \<and> (results s = [] \<longrightarrow> queue s = [ROOT W])
     \<and> (results s \<noteq> [] \<longrightarrow> (\<forall>q\<in>set (queue s). \<not> isDocumentUrl W q))
     \<and> (\<forall>r\<in>set (results s). prefix (ROOT W) (url r))
     \<and> (\<forall>r\<in>set (results s). isDocumentUrl W (url r) \<longrightarrow> url r = ROOT W \<and> results s = [r] \<and> queue s = [])"
proof (induction rule: reachable.induct)
  case start
  show ?case by (simp add: initialState_def)
next
  case (step s s')
  from step.IH have ih:
    "\<forall>q\<in>set (queue s). prefix (ROOT W) q"
    "results s = [] \<longrightarrow> queue s = [ROOT W]"
    "results s \<noteq> [] \<longrightarrow> (\<forall>q\<in>set (queue s). \<not> isDocumentUrl W q)"
    "\<forall>r\<in>set (results s). prefix (ROOT W) (url r)"
    "\<forall>r\<in>set (results s). isDocumentUrl W (url r) \<longrightarrow> url r = ROOT W \<and> results s = [r] \<and> queue s = []"
    by blast+
  from step.hyps(2) obtain u rest where q: "queue s = u # rest" by (cases "queue s") auto
  from step.hyps(1) q have nv: "normalizeUrl W u \<notin> visited s" by (rule reachable_head_unvisited)
  from ih(5) q have nodoc: "\<forall>r\<in>set (results s). \<not> isDocumentUrl W (url r)" by auto
  from crawlStep_summary [OF q step.hyps(3) nv] obtain olds r new ls where
    res: "results s' = olds @ [r]" "url r = u"
      "list_all2 (\<lambda>x r. \<exists>evs. x = deliver evs r) olds (results s)"
    and qu: "queue s' = rest @ new"
    and new: "set new \<subseteq> {l \<in> set ls. \<not> isDocumentUrl W l \<and> prefix (ROOT W) l
                                  \<and> normalizeUrl W l \<notin> insert (normalizeUrl W u) (visited s)}"
    by blast
  have urls: "map url olds = map url (results s)" using res(3) by (rule rel_map_url)
  then have olds_url: "url ` set olds = url ` set (results s)" by (metis set_map)
  have docq: "isDocumentUrl W u \<Longrightarrow> results s = [] \<and> rest = [] \<and> u = ROOT W"
    using ih(2,3) q by (cases "results s = []") auto
  have newempty: "isDocumentUrl W u \<Longrightarrow> new = []"
  proof -
    assume d: "isDocumentUrl W u"
    from q step.hyps(3) nv show "new = []"
    proof (cases rule: crawlStep_result)
      case (document os)
      with qu show ?thesis by simp
    next
      case (failed os m)
      with d show ?thesis by simp
    next
      case (loaded os st t ls s1 r2 s2 nw)
      with d show ?thesis by simp
    qed
  qed
  have 1: "\<forall>x\<in>set (queue s'). prefix (ROOT W) x" using qu q ih(1) new by auto
  have 2: "results s' = [] \<longrightarrow> queue s' = [ROOT W]" using res(1) by simp
  have 3: "results s' \<noteq> [] \<longrightarrow> (\<forall>x\<in>set (queue s'). \<not> isDocumentUrl W x)"
  proof (intro impI ballI)
    fix x assume "x \<in> set (queue s')"
    then consider "x \<in> set rest" | "x \<in> set new" using qu by auto
    then show "\<not> isDocumentUrl W x"
    proof cases
      case 1
      with ih(2,3) q show ?thesis by (cases "results s = []") auto
    next
      case 2
      with new show ?thesis by auto
    qed
  qed
  have 4: "\<forall>x\<in>set (results s'). prefix (ROOT W) (url x)"
  proof
    fix x assume "x \<in> set (results s')"
    then consider "x \<in> set olds" | "x = r" using res(1) by auto
    then show "prefix (ROOT W) (url x)"
    proof cases
      case 1
      then have "url x \<in> url ` set (results s)" using olds_url by blast
      with ih(4) show ?thesis by auto
    next
      case 2
      with res(2) q ih(1) show ?thesis by simp
    qed
  qed
  have 5: "\<forall>x\<in>set (results s'). isDocumentUrl W (url x) \<longrightarrow> url x = ROOT W \<and> results s' = [x] \<and> queue s' = []"
  proof (intro ballI impI)
    fix x assume x: "x \<in> set (results s')" and d: "isDocumentUrl W (url x)"
    from x consider "x \<in> set olds" | "x = r" using res(1) by auto
    then show "url x = ROOT W \<and> results s' = [x] \<and> queue s' = []"
    proof cases
      case 1
      then have "url x \<in> url ` set (results s)" using olds_url by blast
      with nodoc d show ?thesis by auto
    next
      case 2
      with d res(2) have du: "isDocumentUrl W u" by simp
      from docq [OF du] newempty [OF du] res qu 2 show ?thesis by simp
    qed
  qed
  from 1 2 3 4 5 show ?case by blast
qed

lemma inspectImages_document:
  "inspectImages W u r s = (r', s') \<Longrightarrow> documentStatus r' = documentStatus r"
  unfolding inspectImages_def by (auto split: option.splits prod.splits)

lemma linksRecorded_deliver: "linksRecorded W (deliver evs r) = linksRecorded W r"
  by (simp add: linksRecorded_def)


lemma reachable_links:
  assumes "reachable W s"
  shows "\<forall>r\<in>set (results s). linksRecorded W r"
  using _ _ _ _ assms
proof (rule reachable_results)
  fix evs and r :: PageResult
  assume "linksRecorded W r"
  then show "linksRecorded W (deliver evs r)" by (simp only: linksRecorded_deliver)
next
  fix u
  assume "isDocumentUrl W u"
  then show "linksRecorded W (snd (checkDocumentUrl W u (newPageResult u)))"
    by (simp add: linksRecorded_def)
next
  fix u message
  assume "\<not> isDocumentUrl W u" "response (goto W u) = Rejected message"
  then show "linksRecorded W ((deliver (events (goto W u)) (setupErrorHandling (newPageResult u)))
            \<lparr>jsErrors := jsErrors (deliver (events (goto W u)) (setupErrorHandling (newPageResult u)))
                           @ [''Page failed to load: '' @ message],
             loadTime := elapsed (goto W u)\<rparr>)"
    by (simp add: linksRecorded_def setupErrorHandling_def newPageResult_def)
next
  fix r2 :: PageResult and u st t ls s1 s2 new
  assume nd: "\<not> isDocumentUrl W u" and ls: "dom_links (pageDom W u) = Some ls"
    and im: "inspectImages W u
         ((deliver (events (goto W u)) (setupErrorHandling (newPageResult u)))
            \<lparr>loadTime := elapsed (goto W u), statusCode := statusOr200 st,
             title := (if t = [] then warningSign @ '' Missing <title>'' else t),
             metaDescription := (case dom_metaDescription (pageDom W u) of None \<Rightarrow> [] | Some d \<Rightarrow> d),
             metaTags := (case dom_metaTags (pageDom W u) of None \<Rightarrow> [] | Some m \<Rightarrow> m)\<rparr>)
         s1 = (r2, s2)"
    and new: "set new \<subseteq> {l \<in> set ls. \<not> isDocumentUrl W l \<and> prefix (ROOT W) l}"
  from inspectImages_result [OF im] inspectImages_document [OF im]
  have r2: "url r2 = u" "\<not> isDocument r2" "documentStatus r2 = []"
    by (simp_all add: setupErrorHandling_def newPageResult_def)
  with nd ls new
  show "linksRecorded W (r2\<lparr>links := new, documentLinks := Some (filter (isDocumentUrl W) ls)\<rparr>)"
    by (auto simp: linksRecorded_def)
qed

lemma strayWeb_run:
  "(case crawlAndTest 1 strayWeb of
      Running s \<Rightarrow> queue s = [''https://x.com.evil.com/p'']
    | _ \<Rightarrow> False)
   \<and> (case crawlAndTest 2 strayWeb of
      Finished s \<Rightarrow>
        map url (results s) = [''https://x.com'', ''https://x.com.evil.com/p'']
        \<and> map links (results s) = [[''https://x.com.evil.com/p''], []]
    | _ \<Rightarrow> False)
   \<and> map_option origin (newURL strayWeb (ROOT strayWeb)) = Some ''https://x.com''
   \<and> map_option origin (newURL strayWeb ''https://x.com.evil.com/p'') = Some ''https://x.com.evil.com''
   \<and> \<not> isDocumentUrl strayWeb ''https://x.com.evil.com/p''"
  by code_simp

text \<open>
  Claim C5.  The scope test of the code is \<^verbatim>\<open>link.startsWith(ROOT)\<close>, a comparison of
  texts.  With \<open>ROOT\<close> \<^verbatim>\<open>https://x.com\<close>, the link \<^verbatim>\<open>https://x.com.evil.com/p\<close> on the root
  page is no asset and has another origin than \<open>ROOT\<close>, so it lies outside the crawl
  root; the run nevertheless puts it into the queue, lists it in the \<open>links\<close> of the
  root's result, and crawls it.
\<close>

theorem origin_scoping_counterexample:
  "\<exists>s1 s2. crawlAndTest 1 strayWeb = Running s1 \<and> crawlAndTest 2 strayWeb = Finished s2
     \<and> map_option origin (newURL strayWeb (ROOT strayWeb)) = Some ''https://x.com''
     \<and> map_option origin (newURL strayWeb ''https://x.com.evil.com/p'') = Some ''https://x.com.evil.com''
     \<and> \<not> isDocumentUrl strayWeb ''https://x.com.evil.com/p''
     \<and> ''https://x.com.evil.com/p'' \<in> set (queue s1)
     \<and> map url (results s2) = [''https://x.com'', ''https://x.com.evil.com/p'']
     \<and> map links (results s2) = [[''https://x.com.evil.com/p''], []]"
proof -
  from strayWeb_run obtain s1 where s1: "crawlAndTest 1 strayWeb = Running s1"
    "queue s1 = [''https://x.com.evil.com/p'']"
    by (cases "crawlAndTest 1 strayWeb") auto
  from strayWeb_run obtain s2 where s2: "crawlAndTest 2 strayWeb = Finished s2"
    "map url (results s2) = [''https://x.com'', ''https://x.com.evil.com/p'']"
    "map links (results s2) = [[''https://x.com.evil.com/p''], []]"
    by (cases "crawlAndTest 2 strayWeb") auto
  from s1 s2 strayWeb_run show ?thesis
    by (intro exI [of _ s1] exI [of _ s2]) simp
qed

text \<open>
  What the test does keep out.  Take a link that does not begin with the text of
  \<open>ROOT\<close>.  In every state of a run it is not in the queue, it is the URL of no result,
  and it is in the \<open>links\<close> of no result.  Where it is among the document links of a
  result it is an asset; and on every HTML page that loaded and links to it, it is among
  the document links of the page's result exactly when it is an asset.
\<close>

theorem root_scoping:
  "(crawlAndTest n W = Finished s \<or> crawlAndTest n W = Running s) \<and> \<not> prefix (ROOT W) l \<longrightarrow>
     l \<notin> set (queue s)
     \<and> (\<forall>r\<in>set (results s).
           url r \<noteq> l \<and> l \<notin> set (links r)
           \<and> (\<forall>ds. documentLinks r = Some ds \<and> l \<in> set ds \<longrightarrow> isDocumentUrl W l)
           \<and> (\<forall>st ls. \<not> isDocumentUrl W (url r) \<and> response (goto W (url r)) = Resolved st
                  \<and> dom_links (pageDom W (url r)) = Some ls \<and> l \<in> set ls
                 \<longrightarrow> (\<exists>ds. documentLinks r = Some ds \<and> (l \<in> set ds \<longleftrightarrow> isDocumentUrl W l))))"
proof
  assume a: "(crawlAndTest n W = Finished s \<or> crawlAndTest n W = Running s) \<and> \<not> prefix (ROOT W) l"
  then have re: "reachable W s" by (blast intro: crawlAndTest_reachable)
  from reachable_scope [OF re] have sc:
    "\<forall>q\<in>set (queue s). prefix (ROOT W) q" "\<forall>r\<in>set (results s). prefix (ROOT W) (url r)"
    by blast+
  from reachable_links [OF re] have lk: "\<forall>r\<in>set (results s). linksRecorded W r" .
  from sc(1) a have 1: "l \<notin> set (queue s)" by blast
  have 2: "\<forall>r\<in>set (results s).
           url r \<noteq> l \<and> l \<notin> set (links r)
           \<and> (\<forall>ds. documentLinks r = Some ds \<and> l \<in> set ds \<longrightarrow> isDocumentUrl W l)
           \<and> (\<forall>st ls. \<not> isDocumentUrl W (url r) \<and> response (goto W (url r)) = Resolved st
                  \<and> dom_links (pageDom W (url r)) = Some ls \<and> l \<in> set ls
                 \<longrightarrow> (\<exists>ds. documentLinks r = Some ds \<and> (l \<in> set ds \<longleftrightarrow> isDocumentUrl W l)))"
  proof
    fix r assume r: "r \<in> set (results s)"
    with sc(2) a have u: "url r \<noteq> l" by blast
    from lk r have "linksRecorded W r" by blast
    then have L:
      "\<forall>x\<in>set (links r). prefix (ROOT W) x \<and> \<not> isDocumentUrl W x"
      "\<forall>ds. documentLinks r = Some ds \<longrightarrow> \<not> isDocumentUrl W (url r) \<and> (\<forall>d\<in>set ds. isDocumentUrl W d)"
      "\<forall>st ls. \<not> isDocumentUrl W (url r) \<and> response (goto W (url r)) = Resolved st
                    \<and> dom_links (pageDom W (url r)) = Some ls
             \<longrightarrow> documentLinks r = Some (filter (isDocumentUrl W) ls) \<and> set (links r) \<subseteq> set ls"
      unfolding linksRecorded_def by blast+
    from L(1) a have nl: "l \<notin> set (links r)" by blast
    from L(2) have dl: "\<forall>ds. documentLinks r = Some ds \<and> l \<in> set ds \<longrightarrow> isDocumentUrl W l" by blast
    have fl: "\<forall>st ls. \<not> isDocumentUrl W (url r) \<and> response (goto W (url r)) = Resolved st
                  \<and> dom_links (pageDom W (url r)) = Some ls \<and> l \<in> set ls
                 \<longrightarrow> (\<exists>ds. documentLinks r = Some ds \<and> (l \<in> set ds \<longleftrightarrow> isDocumentUrl W l))"
    proof (intro allI impI)
      fix st ls
      assume h: "\<not> isDocumentUrl W (url r) \<and> response (goto W (url r)) = Resolved st
                  \<and> dom_links (pageDom W (url r)) = Some ls \<and> l \<in> set ls"
      with L(3) have "documentLinks r = Some (filter (isDocumentUrl W) ls)" by blast
      with h show "\<exists>ds. documentLinks r = Some ds \<and> (l \<in> set ds \<longleftrightarrow> isDocumentUrl W l)" by simp
    qed
    from u nl dl fl show "url r \<noteq> l \<and> l \<notin> set (links r)
           \<and> (\<forall>ds. documentLinks r = Some ds \<and> l \<in> set ds \<longrightarrow> isDocumentUrl W l)
           \<and> (\<forall>st ls. \<not> isDocumentUrl W (url r) \<and> response (goto W (url r)) = Resolved st
                  \<and> dom_links (pageDom W (url r)) = Some ls \<and> l \<in> set ls
                 \<longrightarrow> (\<exists>ds. documentLinks r = Some ds \<and> (l \<in> set ds \<longleftrightarrow> isDocumentUrl W l)))"
      by blast
  qed
  from 1 2 show "l \<notin> set (queue s)
     \<and> (\<forall>r\<in>set (results s).
           url r \<noteq> l \<and> l \<notin> set (links r)
           \<and> (\<forall>ds. documentLinks r = Some ds \<and> l \<in> set ds \<longrightarrow> isDocumentUrl W l)
           \<and> (\<forall>st ls. \<not> isDocumentUrl W (url r) \<and> response (goto W (url r)) = Resolved st
                  \<and> dom_links (pageDom W (url r)) = Some ls \<and> l \<in> set ls
                 \<longrightarrow> (\<exists>ds. documentLinks r = Some ds \<and> (l \<in> set ds \<longleftrightarrow> isDocumentUrl W l))))"
    by blast
qed

theorem root_scoping_witness:
  "\<exists>s r. crawlAndTest 5 siteWeb = Finished s \<and> r \<in> set (results s) \<and> url r = ''https://x.com''
     \<and> ''https://other.com/page'' \<notin> set (queue s)
     \<and> ''https://other.com/page'' \<notin> set (links r)
     \<and> (\<exists>ds. documentLinks r = Some ds \<and> ''https://other.com/page'' \<notin> set ds)
     \<and> (\<exists>ds. documentLinks r = Some ds \<and> ''https://other.com/brochure.pdf'' \<in> set ds)
     \<and> ''https://other.com/brochure.pdf'' \<notin> set (queue s)"
proof -
  define home where "home = ''https://x.com''"
  define page where "page = ''https://other.com/page''"
  define brochure where "brochure = ''https://other.com/brochure.pdf''"
  define ls where "ls = [''https://x.com/about'', ''https://x.com/about/'', ''https://x.com/'',
                             ''https://x.com/files/report.pdf'', page, brochure, ''https://x.com/slow'']"
  from siteWeb_run obtain s where s: "crawlAndTest 5 siteWeb = Finished s"
    "map url (results s) = [home, ''https://x.com/about'', ''https://x.com/slow'']"
    unfolding home_def by (cases "crawlAndTest 5 siteWeb") auto
  from s(2) obtain r rs where rs: "results s = r # rs" by (cases "results s") auto
  with s(2) have r: "r \<in> set (results s)" "url r = home" by simp_all
  have out: "\<not> prefix (ROOT siteWeb) page" "\<not> prefix (ROOT siteWeb) brochure"
    by (simp_all add: siteWeb_def page_def brochure_def)
  have nd: "\<not> isDocumentUrl siteWeb home" unfolding home_def by code_simp
  have cls: "\<not> isDocumentUrl siteWeb page" "isDocumentUrl siteWeb brochure"
    unfolding page_def brochure_def by code_simp+
  have nav: "response (goto siteWeb home) = Resolved (Some 200)"
    by (simp add: siteWeb_def loadedIn_def home_def)
  have dl: "dom_links (pageDom siteWeb home) = Some ls"
    by (simp add: siteWeb_def home_def ls_def page_def brochure_def)
  have mem: "page \<in> set ls" "brochure \<in> set ls" by (simp_all add: ls_def)
  note P = root_scoping [where n = 5 and W = siteWeb and s = s and l = page]
  note B = root_scoping [where n = 5 and W = siteWeb and s = s and l = brochure]
  from P s(1) out(1) have p1: "page \<notin> set (queue s)"
    and p2: "\<forall>r\<in>set (results s).
           url r \<noteq> page \<and> page \<notin> set (links r)
           \<and> (\<forall>ds. documentLinks r = Some ds \<and> page \<in> set ds \<longrightarrow> isDocumentUrl siteWeb page)
           \<and> (\<forall>st ls. \<not> isDocumentUrl siteWeb (url r) \<and> response (goto siteWeb (url r)) = Resolved st
                  \<and> dom_links (pageDom siteWeb (url r)) = Some ls \<and> page \<in> set ls
                 \<longrightarrow> (\<exists>ds. documentLinks r = Some ds \<and> (page \<in> set ds \<longleftrightarrow> isDocumentUrl siteWeb page)))"
    by blast+
  from B s(1) out(2) have b1: "brochure \<notin> set (queue s)"
    and b2: "\<forall>r\<in>set (results s).
           url r \<noteq> brochure \<and> brochure \<notin> set (links r)
           \<and> (\<forall>ds. documentLinks r = Some ds \<and> brochure \<in> set ds \<longrightarrow> isDocumentUrl siteWeb brochure)
           \<and> (\<forall>st ls. \<not> isDocumentUrl siteWeb (url r) \<and> response (goto siteWeb (url r)) = Resolved st
                  \<and> dom_links (pageDom siteWeb (url r)) = Some ls \<and> brochure \<in> set ls
                 \<longrightarrow> (\<exists>ds. documentLinks r = Some ds \<and> (brochure \<in> set ds \<longleftrightarrow> isDocumentUrl siteWeb brochure)))"
    by blast+
  from p2 r(1) have p3: "page \<notin> set (links r)" by blast
  from p2 r nd nav dl mem(1) cls(1) have p4: "\<exists>ds. documentLinks r = Some ds \<and> page \<notin> set ds"
    by metis
  from b2 r nd nav dl mem(2) cls(2) have b4: "\<exists>ds. documentLinks r = Some ds \<and> brochure \<in> set ds"
    by metis
  from s(1) r p1 p3 p4 b1 b4
  have "crawlAndTest 5 siteWeb = Finished s \<and> r \<in> set (results s) \<and> url r = home
     \<and> page \<notin> set (queue s) \<and> page \<notin> set (links r)
     \<and> (\<exists>ds. documentLinks r = Some ds \<and> page \<notin> set ds)
     \<and> (\<exists>ds. documentLinks r = Some ds \<and> brochure \<in> set ds)
     \<and> brochure \<notin> set (queue s)"
    by blast
  then show ?thesis unfolding home_def page_def brochure_def by blast
qed

text \<open>
  Claim C10.  In every state of a run: before the first result the queue holds only
  \<open>ROOT\<close>, and afterwards no queue entry is an asset, so every link that was enqueued
  was classified as no asset.  A result with \<open>isDocument = True\<close> or with a document
  status has the URL \<open>ROOT\<close>, and \<open>ROOT\<close> is then an asset; when \<open>ROOT\<close> is no asset, no
  result went through the document inspection.  The document links of a result are
  assets (for a page that loaded, exactly the asset links of the page); none of them
  is in the queue, and none of them is the URL of a result.
\<close>

theorem documents_only_at_root:
  "(crawlAndTest n W = Finished s \<or> crawlAndTest n W = Running s) \<longrightarrow>
     (results s = [] \<longrightarrow> queue s = [ROOT W])
     \<and> (results s \<noteq> [] \<longrightarrow> (\<forall>q\<in>set (queue s). \<not> isDocumentUrl W q))
     \<and> (\<forall>r\<in>set (results s).
           (isDocument r \<or> documentStatus r \<noteq> [] \<or> isDocumentUrl W (url r)
              \<longrightarrow> url r = ROOT W \<and> isDocumentUrl W (ROOT W))
           \<and> (\<forall>ds d. documentLinks r = Some ds \<and> d \<in> set ds \<longrightarrow>
                 isDocumentUrl W d \<and> d \<notin> set (queue s) \<and> (\<forall>r'\<in>set (results s). url r' \<noteq> d))
           \<and> (\<forall>st ls. \<not> isDocumentUrl W (url r) \<and> response (goto W (url r)) = Resolved st
                  \<and> dom_links (pageDom W (url r)) = Some ls
                 \<longrightarrow> documentLinks r = Some (filter (isDocumentUrl W) ls)))
     \<and> (\<not> isDocumentUrl W (ROOT W) \<longrightarrow>
           (\<forall>r\<in>set (results s). \<not> isDocument r \<and> documentStatus r = [] \<and> \<not> isDocumentUrl W (url r)))"
proof
  assume a: "crawlAndTest n W = Finished s \<or> crawlAndTest n W = Running s"
  then have re: "reachable W s" by (rule crawlAndTest_reachable)
  from reachable_scope [OF re] have sc:
    "results s = [] \<longrightarrow> queue s = [ROOT W]"
    "results s \<noteq> [] \<longrightarrow> (\<forall>q\<in>set (queue s). \<not> isDocumentUrl W q)"
    "\<forall>r\<in>set (results s). isDocumentUrl W (url r) \<longrightarrow> url r = ROOT W \<and> results s = [r] \<and> queue s = []"
    by blast+
  from reachable_links [OF re] have lk: "\<forall>r\<in>set (results s). linksRecorded W r" .
  have per: "(isDocument r \<or> documentStatus r \<noteq> [] \<or> isDocumentUrl W (url r)
              \<longrightarrow> url r = ROOT W \<and> isDocumentUrl W (ROOT W))
           \<and> (\<forall>ds d. documentLinks r = Some ds \<and> d \<in> set ds \<longrightarrow>
                 isDocumentUrl W d \<and> d \<notin> set (queue s) \<and> (\<forall>r'\<in>set (results s). url r' \<noteq> d))
           \<and> (\<forall>st ls. \<not> isDocumentUrl W (url r) \<and> response (goto W (url r)) = Resolved st
                  \<and> dom_links (pageDom W (url r)) = Some ls
                 \<longrightarrow> documentLinks r = Some (filter (isDocumentUrl W) ls))"
    if r: "r \<in> set (results s)" for r
  proof -
    from lk r have "linksRecorded W r" by blast
    then have L:
      "\<forall>ds. documentLinks r = Some ds \<longrightarrow> \<not> isDocumentUrl W (url r) \<and> (\<forall>d\<in>set ds. isDocumentUrl W d)"
      "\<not> isDocumentUrl W (url r) \<longrightarrow> \<not> isDocument r \<and> documentStatus r = []"
      "\<forall>st ls. \<not> isDocumentUrl W (url r) \<and> response (goto W (url r)) = Resolved st
                    \<and> dom_links (pageDom W (url r)) = Some ls
             \<longrightarrow> documentLinks r = Some (filter (isDocumentUrl W) ls) \<and> set (links r) \<subseteq> set ls"
      unfolding linksRecorded_def by blast+
    have 1: "isDocument r \<or> documentStatus r \<noteq> [] \<or> isDocumentUrl W (url r)
              \<longrightarrow> url r = ROOT W \<and> isDocumentUrl W (ROOT W)"
    proof
      assume "isDocument r \<or> documentStatus r \<noteq> [] \<or> isDocumentUrl W (url r)"
      with L(2) have d: "isDocumentUrl W (url r)" by blast
      with sc(3) r have "url r = ROOT W" by blast
      with d show "url r = ROOT W \<and> isDocumentUrl W (ROOT W)" by simp
    qed
    have 2: "\<forall>ds d. documentLinks r = Some ds \<and> d \<in> set ds \<longrightarrow>
                 isDocumentUrl W d \<and> d \<notin> set (queue s) \<and> (\<forall>r'\<in>set (results s). url r' \<noteq> d)"
    proof (intro allI impI)
      fix ds d assume h: "documentLinks r = Some ds \<and> d \<in> set ds"
      with L(1) have nd: "\<not> isDocumentUrl W (url r)" and dd: "isDocumentUrl W d" by blast+
      from r have ne: "results s \<noteq> []" by auto
      with sc(2) dd have nq: "d \<notin> set (queue s)" by blast
      have "\<forall>r'\<in>set (results s). url r' \<noteq> d"
      proof
        fix r' assume r': "r' \<in> set (results s)"
        show "url r' \<noteq> d"
        proof
          assume "url r' = d"
          with dd have "isDocumentUrl W (url r')" by simp
          with sc(3) r' have "results s = [r']" by blast
          with r have "r = r'" by simp
          with nd \<open>isDocumentUrl W (url r')\<close> show False by simp
        qed
      qed
      with dd nq show "isDocumentUrl W d \<and> d \<notin> set (queue s) \<and> (\<forall>r'\<in>set (results s). url r' \<noteq> d)"
        by blast
    qed
    from L(3) have 3: "\<forall>st ls. \<not> isDocumentUrl W (url r) \<and> response (goto W (url r)) = Resolved st
                  \<and> dom_links (pageDom W (url r)) = Some ls
                 \<longrightarrow> documentLinks r = Some (filter (isDocumentUrl W) ls)" by blast
    from 1 2 3 show ?thesis by blast
  qed
  have last: "\<not> isDocumentUrl W (ROOT W) \<longrightarrow>
           (\<forall>r\<in>set (results s). \<not> isDocument r \<and> documentStatus r = [] \<and> \<not> isDocumentUrl W (url r))"
    using per by metis
  from sc(1,2) per last
  show "(results s = [] \<longrightarrow> queue s = [ROOT W])
     \<and> (results s \<noteq> [] \<longrightarrow> (\<forall>q\<in>set (queue s). \<not> isDocumentUrl W q))
     \<and> (\<forall>r\<in>set (results s).
           (isDocument r \<or> documentStatus r \<noteq> [] \<or> isDocumentUrl W (url r)
              \<longrightarrow> url r = ROOT W \<and> isDocumentUrl W (ROOT W))
           \<and> (\<forall>ds d. documentLinks r = Some ds \<and> d \<in> set ds \<longrightarrow>
                 isDocumentUrl W d \<and> d \<notin> set (queue s) \<and> (\<forall>r'\<in>set (results s). url r' \<noteq> d))
           \<and> (\<forall>st ls. \<not> isDocumentUrl W (url r) \<and> response (goto W (url r)) = Resolved st
                  \<and> dom_links (pageDom W (url r)) = Some ls
                 \<longrightarrow> documentLinks r = Some (filter (isDocumentUrl W) ls)))
     \<and> (\<not> isDocumentUrl W (ROOT W) \<longrightarrow>
           (\<forall>r\<in>set (results s). \<not> isDocument r \<and> documentStatus r = [] \<and> \<not> isDocumentUrl W (url r)))"
    by blast
qed

theorem documents_only_at_root_witness:
  "\<exists>s r. crawlAndTest 5 siteWeb = Finished s \<and> r \<in> set (results s) \<and> url r = ''https://x.com''
     \<and> documentLinks r = Some [''https://x.com/files/report.pdf'', ''https://other.com/brochure.pdf'']
     \<and> isDocumentUrl siteWeb ''https://x.com/files/report.pdf''
     \<and> ''https://x.com/files/report.pdf'' \<notin> set (queue s)
     \<and> ''https://x.com/files/report.pdf'' \<notin> set (map url (results s))
     \<and> \<not> isDocument r"
proof -
  define home where "home = ''https://x.com''"
  define report where "report = ''https://x.com/files/report.pdf''"
  define brochure where "brochure = ''https://other.com/brochure.pdf''"
  from siteWeb_run obtain s where s: "crawlAndTest 5 siteWeb = Finished s"
    "map url (results s) = [home, ''https://x.com/about'', ''https://x.com/slow'']"
    "map documentLinks (results s) = [Some [report, brochure], Some [], None]"
    unfolding home_def report_def brochure_def by (cases "crawlAndTest 5 siteWeb") auto
  from s(2) obtain r rs where rs: "results s = r # rs" by (cases "results s") auto
  with s(2,3) have r: "r \<in> set (results s)" "url r = home" "documentLinks r = Some [report, brochure]"
    by simp_all
  have nroot: "\<not> isDocumentUrl siteWeb (ROOT siteWeb)" unfolding siteWeb_def by code_simp
  note T = documents_only_at_root [where n = 5 and W = siteWeb and s = s]
  from T s(1) have
    1: "\<forall>r\<in>set (results s).
           (isDocument r \<or> documentStatus r \<noteq> [] \<or> isDocumentUrl siteWeb (url r)
              \<longrightarrow> url r = ROOT siteWeb \<and> isDocumentUrl siteWeb (ROOT siteWeb))
           \<and> (\<forall>ds d. documentLinks r = Some ds \<and> d \<in> set ds \<longrightarrow>
                 isDocumentUrl siteWeb d \<and> d \<notin> set (queue s) \<and> (\<forall>r'\<in>set (results s). url r' \<noteq> d))
           \<and> (\<forall>st ls. \<not> isDocumentUrl siteWeb (url r) \<and> response (goto siteWeb (url r)) = Resolved st
                  \<and> dom_links (pageDom siteWeb (url r)) = Some ls
                 \<longrightarrow> documentLinks r = Some (filter (isDocumentUrl siteWeb) ls))"
    by blast
  from 1 r(1) nroot have nd: "\<not> isDocument r" by blast
  have "report \<in> set [report, brochure]" by simp
  with 1 r(1,3) have d: "isDocumentUrl siteWeb report" "report \<notin> set (queue s)"
    "\<forall>r'\<in>set (results s). url r' \<noteq> report" by blast+
  from d(3) have "report \<notin> set (map url (results s))" by auto
  with s(1) r nd d(1,2)
  have "crawlAndTest 5 siteWeb = Finished s \<and> r \<in> set (results s) \<and> url r = home
     \<and> documentLinks r = Some [report, brochure]
     \<and> isDocumentUrl siteWeb report \<and> report \<notin> set (queue s)
     \<and> report \<notin> set (map url (results s)) \<and> \<not> isDocument r"
    by blast
  then show ?thesis unfolding home_def report_def brochure_def by blast
qed

subsection \<open>First in, first out\<close>

lemma crawlStep_total:
  assumes "\<forall>u. dom_title (pageDom W u) \<noteq> None \<and> dom_links (pageDom W u) \<noteq> None"
  shows "\<exists>s'. crawlStep W s = Some s'"
proof (cases "queue s")
  case Nil
  then show ?thesis by (simp add: crawlStep_def)
next
  case (Cons u rest)
  from assms obtain t ls where "dom_title (pageDom W u) = Some t" "dom_links (pageDom W u) = Some ls"
    by (metis not_None_eq)
  with Cons show ?thesis
    by (auto simp: crawlStep_def inspectPage_def Let_def split: GotoResult.splits prod.splits)
qed

lemma crawlStep_urls:
  assumes "reachable W s" "queue s = u # rest" "crawlStep W s = Some s'"
  shows "map url (results s') = map url (results s) @ [u] \<and> (\<exists>new. queue s' = rest @ new)"
proof -
  from assms(1,2) have nv: "normalizeUrl W u \<notin> visited s" by (rule reachable_head_unvisited)
  from crawlStep_summary [OF assms(2,3) nv] obtain olds r new where
    "results s' = olds @ [r]" "url r = u"
    "list_all2 (\<lambda>x r. \<exists>evs. x = deliver evs r) olds (results s)" "queue s' = rest @ new"
    by blast
  then show ?thesis by (auto simp: rel_map_url)
qed

text \<open>
  While nothing is rejected, \<open>k\<close> rounds move the first \<open>k\<close> queue entries, in order,
  to the end of the results, and add to the queue only at its end.
\<close>

lemma drain:
  assumes nc: "\<forall>u. dom_title (pageDom W u) \<noteq> None \<and> dom_links (pageDom W u) \<noteq> None"
  shows "reachable W s \<Longrightarrow> k \<le> length (queue s) \<Longrightarrow>
     \<exists>s' new. (\<forall>m. crawlLoop (k + m) W s = crawlLoop m W s') \<and> reachable W s'
        \<and> map url (results s') = map url (results s) @ take k (queue s)
        \<and> queue s' = drop k (queue s) @ new"
proof (induction k arbitrary: s)
  case 0
  show ?case by (rule exI [of _ s], rule exI [of _ "[]"]) (use 0 in simp)
next
  case (Suc k)
  from Suc.prems(2) obtain u rest where q: "queue s = u # rest" by (cases "queue s") auto
  from crawlStep_total [OF nc] obtain s1 where s1: "crawlStep W s = Some s1" by blast
  from Suc.prems(1) q s1 have r1: "reachable W s1" by (auto intro: reachable.step)
  from crawlStep_urls [OF Suc.prems(1) q s1] obtain new1 where
    u1: "map url (results s1) = map url (results s) @ [u]" and q1: "queue s1 = rest @ new1"
    by blast
  from Suc.prems(2) q q1 have k: "k \<le> length rest" "k \<le> length (queue s1)" by simp_all
  from Suc.IH [OF r1 k(2)] obtain s' new where
    s': "\<forall>m. crawlLoop (k + m) W s1 = crawlLoop m W s'" "reachable W s'"
    "map url (results s') = map url (results s1) @ take k (queue s1)"
    "queue s' = drop k (queue s1) @ new"
    by blast
  have loop: "\<forall>m. crawlLoop (Suc k + m) W s = crawlLoop m W s'"
    using q s1 s'(1) by simp
  have res: "map url (results s') = map url (results s) @ take (Suc k) (queue s)"
    using s'(3) u1 q1 q k(1) by simp
  have que: "queue s' = drop (Suc k) (queue s) @ new1 @ new"
    using s'(4) q1 q k(1) by simp
  from loop s'(2) res que show ?case by blast
qed

text \<open>The lists of results of one run, at different amounts of fuel, extend one another.\<close>

lemma crawlLoop_grows:
  "reachable W s \<Longrightarrow> crawlLoop k W s = Finished t \<or> crawlLoop k W s = Running t
     \<Longrightarrow> prefix (map url (results s)) (map url (results t))"
proof (induction k arbitrary: s)
  case 0
  then show ?case by (auto split: if_splits)
next
  case (Suc k)
  show ?case
  proof (cases "queue s")
    case Nil
    with Suc.prems show ?thesis by auto
  next
    case (Cons u rest)
    with Suc.prems(2) obtain s1 where s1: "crawlStep W s = Some s1"
      and run: "crawlLoop k W s1 = Finished t \<or> crawlLoop k W s1 = Running t"
      by (auto split: option.splits)
    from Suc.prems(1) Cons s1 have r1: "reachable W s1" by (auto intro: reachable.step)
    from crawlStep_urls [OF Suc.prems(1) Cons s1]
    have "prefix (map url (results s)) (map url (results s1))" by simp
    also from Suc.IH [OF r1 run] have "prefix (map url (results s1)) (map url (results t))" .
    finally show ?thesis .
  qed
qed

lemma runs_comparable:
  assumes a: "crawlAndTest m W = Finished t \<or> crawlAndTest m W = Running t"
    and b: "crawlAndTest n W = Finished t' \<or> crawlAndTest n W = Running t'"
  shows "prefix (map url (results t)) (map url (results t'))
       \<or> prefix (map url (results t')) (map url (results t))"
proof (cases "m \<le> n")
  case True
  then obtain j where n: "n = m + j" by (auto simp: le_iff_add)
  from a have "crawlLoop (m + j) W (initialState W) = crawlLoop j W t"
    unfolding crawlAndTest_def by (rule crawlLoop_split)
  with b n have "crawlLoop j W t = Finished t' \<or> crawlLoop j W t = Running t'"
    by (simp add: crawlAndTest_def)
  from crawlLoop_grows [OF crawlAndTest_reachable [OF a] this] show ?thesis by simp
next
  case False
  then obtain j where m: "m = n + j" by (metis le_iff_add nat_le_linear)
  from b have "crawlLoop (n + j) W (initialState W) = crawlLoop j W t'"
    unfolding crawlAndTest_def by (rule crawlLoop_split)
  with a m have "crawlLoop j W t' = Finished t \<or> crawlLoop j W t' = Running t"
    by (simp add: crawlAndTest_def)
  from crawlLoop_grows [OF crawlAndTest_reachable [OF b] this] show ?thesis by simp
qed

lemma crawlStep_loaded:
  assumes q: "queue s = u # rest" and st: "crawlStep W s = Some s'"
    and nv: "normalizeUrl W u \<notin> visited s" and nd: "\<not> isDocumentUrl W u"
    and nav: "response (goto W u) = Resolved st0" and ls: "dom_links (pageDom W u) = Some ls"
  shows "queue s' = snd (snd (partitionLinks W (insert (normalizeUrl W u) (visited s)) ls ([], [], rest)))
       \<and> visited s' = insert (normalizeUrl W u) (visited s)"
proof -
  from crawlStep_summary [OF q st nv] have v: "visited s' = insert (normalizeUrl W u) (visited s)"
    by blast
  from q st nv have "queue s' = snd (snd (partitionLinks W (insert (normalizeUrl W u) (visited s)) ls ([], [], rest)))"
  proof (cases rule: crawlStep_result)
    case (document os)
    with nd show ?thesis by simp
  next
    case (failed os m)
    with nav show ?thesis by simp
  next
    case (loaded os st1 t ls' s1 r2 s2 new)
    with ls show ?thesis by simp
  qed
  with v show ?thesis by simp
qed

text \<open>
  Claim C4.  Let no page reject \<^verbatim>\<open>title()\<close> or the link extraction.  Let the root \<open>R\<close>
  load with the links \<open>[A, B]\<close>, let \<open>A\<close> load with links that include \<open>C\<close>, and let
  \<open>A\<close>, \<open>B\<close>, \<open>C\<close> be pages under the root with identities different from each other and
  from the root's.  Then some amount of fuel gives the results \<open>R, A, B, \<dots>, c\<close> in this
  order, where \<open>c\<close> is the link of \<open>A\<close> that was enqueued for the identity of \<open>C\<close> (\<open>C\<close>
  itself unless an earlier link of \<open>A\<close> has the same identity), and the results at any
  other amount of fuel are a beginning or an extension of this list: \<open>B\<close> is always
  emitted before \<open>c\<close>.
\<close>

theorem bfs_order:
  "(\<forall>u. dom_title (pageDom W u) \<noteq> None \<and> dom_links (pageDom W u) \<noteq> None)
   \<and> ROOT W = R \<and> \<not> isDocumentUrl W R \<and> response (goto W R) = Resolved st
   \<and> dom_links (pageDom W R) = Some [A, B]
   \<and> prefix R A \<and> \<not> isDocumentUrl W A \<and> response (goto W A) = Resolved st'
   \<and> dom_links (pageDom W A) = Some la \<and> C \<in> set la
   \<and> prefix R B \<and> \<not> isDocumentUrl W B \<and> prefix R C \<and> \<not> isDocumentUrl W C
   \<and> distinct [normalizeUrl W R, normalizeUrl W A, normalizeUrl W B, normalizeUrl W C]
   \<longrightarrow> (\<exists>n s xs c.
          (crawlAndTest n W = Finished s \<or> crawlAndTest n W = Running s)
          \<and> map url (results s) = R # A # B # xs @ [c]
          \<and> c \<in> set la \<and> normalizeUrl W c = normalizeUrl W C
          \<and> (\<forall>m t. crawlAndTest m W = Finished t \<or> crawlAndTest m W = Running t \<longrightarrow>
                prefix (map url (results t)) (R # A # B # xs @ [c])
                \<or> prefix (R # A # B # xs @ [c]) (map url (results t))))"
proof
  assume a: "(\<forall>u. dom_title (pageDom W u) \<noteq> None \<and> dom_links (pageDom W u) \<noteq> None)
   \<and> ROOT W = R \<and> \<not> isDocumentUrl W R \<and> response (goto W R) = Resolved st
   \<and> dom_links (pageDom W R) = Some [A, B]
   \<and> prefix R A \<and> \<not> isDocumentUrl W A \<and> response (goto W A) = Resolved st'
   \<and> dom_links (pageDom W A) = Some la \<and> C \<in> set la
   \<and> prefix R B \<and> \<not> isDocumentUrl W B \<and> prefix R C \<and> \<not> isDocumentUrl W C
   \<and> distinct [normalizeUrl W R, normalizeUrl W A, normalizeUrl W B, normalizeUrl W C]"
  then have nc: "\<forall>u. dom_title (pageDom W u) \<noteq> None \<and> dom_links (pageDom W u) \<noteq> None"
    and root: "ROOT W = R" "\<not> isDocumentUrl W R" "response (goto W R) = Resolved st"
      "dom_links (pageDom W R) = Some [A, B]"
    and A: "prefix R A" "\<not> isDocumentUrl W A" "response (goto W A) = Resolved st'"
      "dom_links (pageDom W A) = Some la" "C \<in> set la"
    and B: "prefix R B" "\<not> isDocumentUrl W B"
    and C: "prefix R C" "\<not> isDocumentUrl W C"
    by blast+
  from a have ids: "normalizeUrl W A \<noteq> normalizeUrl W R" "normalizeUrl W B \<noteq> normalizeUrl W R"
    "normalizeUrl W C \<noteq> normalizeUrl W R" "normalizeUrl W B \<noteq> normalizeUrl W A"
    "normalizeUrl W C \<noteq> normalizeUrl W A" "normalizeUrl W C \<noteq> normalizeUrl W B"
    by auto
  let ?s0 = "initialState W"
  have r0: "reachable W ?s0" by (rule reachable.start)
  have q0: "queue ?s0 = R # []" "visited ?s0 = {}" "results ?s0 = []"
    by (simp_all add: initialState_def root(1))
  \<comment> \<open>the first round\<close>
  from crawlStep_total [OF nc] obtain s1 where s1: "crawlStep W ?s0 = Some s1" by blast
  from r0 q0(1) s1 have r1: "reachable W s1" by (auto intro: reachable.step)
  have nv0: "normalizeUrl W R \<notin> visited ?s0" by (simp add: q0)
  from crawlStep_loaded [OF q0(1) s1 nv0 root(2) root(3) root(4)]
  have "queue s1 = snd (snd (partitionLinks W {normalizeUrl W R} [A, B] ([], [], [])))"
    and v1: "visited s1 = {normalizeUrl W R}"
    by (simp_all add: q0)
  with A(1,2) B ids root(1) have q1: "queue s1 = A # [B]"
    by (simp add: linkStep_def Let_def)
  from crawlStep_urls [OF r0 q0(1) s1] have u1: "map url (results s1) = [R]" by (simp add: q0)
  \<comment> \<open>the second round\<close>
  from crawlStep_total [OF nc] obtain s2 where s2: "crawlStep W s1 = Some s2" by blast
  from r1 q1 s2 have r2: "reachable W s2" by (auto intro: reachable.step)
  have nv1: "normalizeUrl W A \<notin> visited s1" using v1 ids by simp
  from crawlStep_loaded [OF q1 s2 nv1 A(2) A(3) A(4)]
  have q2': "queue s2 = snd (snd (partitionLinks W {normalizeUrl W A, normalizeUrl W R} la ([], [], [B])))"
    by (simp add: v1)
  from partitionLinks_acc [of W "{normalizeUrl W A, normalizeUrl W R}" la "[]" "[]" "[B]"]
  obtain new where new:
    "partitionLinks W {normalizeUrl W A, normalizeUrl W R} la ([], [], [B])
       = ([] @ new, [] @ filter (isDocumentUrl W) la, [B] @ new)"
    "set new \<subseteq> {l \<in> set la. \<not> isDocumentUrl W l \<and> prefix (ROOT W) l
                     \<and> normalizeUrl W l \<notin> {normalizeUrl W A, normalizeUrl W R}}"
    "\<forall>l\<in>set la. \<not> isDocumentUrl W l \<and> prefix (ROOT W) l
            \<and> normalizeUrl W l \<notin> {normalizeUrl W A, normalizeUrl W R}
        \<longrightarrow> normalizeUrl W l \<in> normalizeUrl W ` set ([B] @ new)"
    by blast
  from q2' new(1) have q2: "queue s2 = B # new" by simp
  from new(3) A(5) C root(1) ids have "normalizeUrl W C \<in> normalizeUrl W ` set ([B] @ new)" by auto
  with ids obtain c where c: "c \<in> set new" "normalizeUrl W c = normalizeUrl W C" by auto
  from c(1) new(2) have cla: "c \<in> set la" by auto
  from c(1) obtain xs ys where split: "new = xs @ c # ys" by (auto simp: in_set_conv_decomp)
  from crawlStep_urls [OF r1 q1 s2] u1 have u2: "map url (results s2) = [R, A]" by simp
  \<comment> \<open>the rounds that empty the queue up to \<open>c\<close>\<close>
  define k where "k = Suc (Suc (length xs))"
  have kq: "k \<le> length (queue s2)" by (simp add: k_def q2 split)
  from drain [OF nc r2 kq] obtain s' where
    s': "\<forall>m. crawlLoop (k + m) W s2 = crawlLoop m W s'"
    "map url (results s') = map url (results s2) @ take k (queue s2)"
    by blast
  from s'(2) u2 have res: "map url (results s') = R # A # B # xs @ [c]"
    by (simp add: k_def q2 split)
  have "crawlAndTest (Suc (Suc k)) W = crawlLoop k W s2"
    by (simp add: crawlAndTest_def q0 s1 q1 s2)
  also from s'(1) have "\<dots> = crawlLoop 0 W s'" by (metis add.right_neutral)
  finally have run: "crawlAndTest (Suc (Suc k)) W = Finished s' \<or> crawlAndTest (Suc (Suc k)) W = Running s'"
    by simp
  have all: "\<forall>m t. crawlAndTest m W = Finished t \<or> crawlAndTest m W = Running t \<longrightarrow>
                prefix (map url (results t)) (R # A # B # xs @ [c])
                \<or> prefix (R # A # B # xs @ [c]) (map url (results t))"
  proof (intro allI impI)
    fix m t assume "crawlAndTest m W = Finished t \<or> crawlAndTest m W = Running t"
    from runs_comparable [OF this run] show "prefix (map url (results t)) (R # A # B # xs @ [c])
                \<or> prefix (R # A # B # xs @ [c]) (map url (results t))"
      unfolding res .
  qed
  show "\<exists>n s xs c.
          (crawlAndTest n W = Finished s \<or> crawlAndTest n W = Running s)
          \<and> map url (results s) = R # A # B # xs @ [c]
          \<and> c \<in> set la \<and> normalizeUrl W c = normalizeUrl W C
          \<and> (\<forall>m t. crawlAndTest m W = Finished t \<or> crawlAndTest m W = Running t \<longrightarrow>
                prefix (map url (results t)) (R # A # B # xs @ [c])
                \<or> prefix (R # A # B # xs @ [c]) (map url (results t)))"
    by (rule exI [of _ "Suc (Suc k)"], rule exI [of _ s'], rule exI [of _ xs], rule exI [of _ c])
       (use run res cla c(2) all in blast)
qed

lemma bfsWeb_run:
  "(case crawlAndTest 4 bfsWeb of
      Finished s \<Rightarrow>
        map url (results s) = [''https://x.com'', ''https://x.com/a'', ''https://x.com/b'', ''https://x.com/c'']
    | _ \<Rightarrow> False)"
  by code_simp

theorem bfs_order_witness:
  "(\<exists>n s xs c.
      (crawlAndTest n bfsWeb = Finished s \<or> crawlAndTest n bfsWeb = Running s)
      \<and> map url (results s) = ''https://x.com'' # ''https://x.com/a'' # ''https://x.com/b'' # xs @ [c]
      \<and> c \<in> set [''https://x.com/c'', ''https://x.com'']
      \<and> normalizeUrl bfsWeb c = normalizeUrl bfsWeb ''https://x.com/c''
      \<and> (\<forall>m t. crawlAndTest m bfsWeb = Finished t \<or> crawlAndTest m bfsWeb = Running t \<longrightarrow>
            prefix (map url (results t)) (''https://x.com'' # ''https://x.com/a'' # ''https://x.com/b'' # xs @ [c])
            \<or> prefix (''https://x.com'' # ''https://x.com/a'' # ''https://x.com/b'' # xs @ [c]) (map url (results t))))
   \<and> (\<exists>s. crawlAndTest 4 bfsWeb = Finished s
         \<and> map url (results s) = [''https://x.com'', ''https://x.com/a'', ''https://x.com/b'', ''https://x.com/c''])"
proof
  define R where "R = ''https://x.com''"
  define A where "A = ''https://x.com/a''"
  define B where "B = ''https://x.com/b''"
  define C where "C = ''https://x.com/c''"
  have nc: "\<forall>u. dom_title (pageDom bfsWeb u) \<noteq> None \<and> dom_links (pageDom bfsWeb u) \<noteq> None"
    by (simp add: bfsWeb_def)
  have root: "ROOT bfsWeb = R" by (simp add: bfsWeb_def R_def)
  have nav: "response (goto bfsWeb R) = Resolved (Some 200)" "response (goto bfsWeb A) = Resolved (Some 200)"
    by (simp_all add: bfsWeb_def loadedIn_def)
  have lr: "dom_links (pageDom bfsWeb R) = Some [A, B]"
    by (simp add: bfsWeb_def R_def A_def B_def)
  have la: "dom_links (pageDom bfsWeb A) = Some [C, R]"
    by (simp add: bfsWeb_def R_def A_def C_def)
  have pre: "prefix R A" "prefix R B" "prefix R C" by (simp_all add: R_def A_def B_def C_def)
  have nd: "\<not> isDocumentUrl bfsWeb R" "\<not> isDocumentUrl bfsWeb A" "\<not> isDocumentUrl bfsWeb B" "\<not> isDocumentUrl bfsWeb C"
    unfolding R_def A_def B_def C_def by code_simp+
  have ids: "distinct [normalizeUrl bfsWeb R, normalizeUrl bfsWeb A, normalizeUrl bfsWeb B, normalizeUrl bfsWeb C]"
    unfolding R_def A_def B_def C_def by code_simp
  have mem: "C \<in> set [C, R]" by simp
  from bfs_order [where W = bfsWeb and R = R and A = A and B = B and C = C and la = "[C, R]"
      and st = "Some 200" and st' = "Some 200"]
    nc root nav lr la pre nd ids mem
  have "\<exists>n s xs c.
      (crawlAndTest n bfsWeb = Finished s \<or> crawlAndTest n bfsWeb = Running s)
      \<and> map url (results s) = R # A # B # xs @ [c]
      \<and> c \<in> set [C, R] \<and> normalizeUrl bfsWeb c = normalizeUrl bfsWeb C
      \<and> (\<forall>m t. crawlAndTest m bfsWeb = Finished t \<or> crawlAndTest m bfsWeb = Running t \<longrightarrow>
            prefix (map url (results t)) (R # A # B # xs @ [c])
            \<or> prefix (R # A # B # xs @ [c]) (map url (results t)))"
    by blast
  then show "\<exists>n s xs c.
      (crawlAndTest n bfsWeb = Finished s \<or> crawlAndTest n bfsWeb = Running s)
      \<and> map url (results s) = ''https://x.com'' # ''https://x.com/a'' # ''https://x.com/b'' # xs @ [c]
      \<and> c \<in> set [''https://x.com/c'', ''https://x.com'']
      \<and> normalizeUrl bfsWeb c = normalizeUrl bfsWeb ''https://x.com/c''
      \<and> (\<forall>m t. crawlAndTest m bfsWeb = Finished t \<or> crawlAndTest m bfsWeb = Running t \<longrightarrow>
            prefix (map url (results t)) (''https://x.com'' # ''https://x.com/a'' # ''https://x.com/b'' # xs @ [c])
            \<or> prefix (''https://x.com'' # ''https://x.com/a'' # ''https://x.com/b'' # xs @ [c]) (map url (results t)))"
    unfolding R_def A_def B_def C_def .
next
  from bfsWeb_run obtain s where "crawlAndTest 4 bfsWeb = Finished s"
    "map url (results s) = [''https://x.com'', ''https://x.com/a'', ''https://x.com/b'', ''https://x.com/c'']"
    by (cases "crawlAndTest 4 bfsWeb") auto
  then show "\<exists>s. crawlAndTest 4 bfsWeb = Finished s
         \<and> map url (results s) = [''https://x.com'', ''https://x.com/a'', ''https://x.com/b'', ''https://x.com/c'']"
    by (intro exI [of _ s]) simp
qed

end
